theory Spec2Isabelle
  imports Main "HOL-Library.Word" "HOL-Library.Sublist"
begin

unbundle bit_operations_syntax

section \<open>Data model\<close>

text \<open>
  The program of \<^verbatim>\<open>src/p.py\<close> rewrites the packfile of a Git push request.  Python
  \<^verbatim>\<open>bytes\<close> are lists of 8-bit words; a Python \<^verbatim>\<open>str\<close> is the list of its code
  points.  A \<^verbatim>\<open>BytesIO\<close> stream that is only read is the list of the bytes not yet
  read; one that is only written is the list of the bytes written so far.
\<close>

type_synonym byte = "8 word"
type_synonym bytes = "byte list"
type_synonym u32 = "32 word"
type_synonym pystr = "nat list"

text \<open>
  Every exception the program can raise is a value.  \<open>ValueError\<close> carries the message
  of the two \<^verbatim>\<open>raise ValueError(...)\<close> statements; \<open>Base64Error\<close> is whatever
  \<^verbatim>\<open>base64.b64decode\<close> raises, \<open>StructError\<close> is \<^verbatim>\<open>struct.error\<close>, \<open>TypeError\<close> is
  raised by \<^verbatim>\<open>ord(b'')\<close>, \<open>ZlibError\<close> is \<^verbatim>\<open>zlib.error\<close>.  In Python the errors of
  base64 and of the UTF-8 codec are subclasses of \<^verbatim>\<open>ValueError\<close> with messages of their
  own; they are kept apart here, so that an error tells where it was raised.
\<close>

datatype error =
    Base64Error
  | ValueError string
  | StructError
  | TypeError
  | ZlibError
  | UnicodeDecodeError
  | UnicodeEncodeError

definition MarkerNotFound :: error where
  "MarkerNotFound = ValueError ''PACK section not found in the push request''"

definition InvalidMagic :: error where
  "InvalidMagic = ValueError ''Invalid PACK file format''"

text \<open>
  The library services the program calls and the specification treats as black boxes:
  the base64 codec and zlib.  \<open>z_new\<close> is \<^verbatim>\<open>zlib.decompressobj()\<close>, \<open>z_feed\<close> is one call
  of its \<^verbatim>\<open>decompress(chunk)\<close> (the data it returns is discarded by the program, so
  only the new state is kept; \<open>None\<close> is \<^verbatim>\<open>zlib.error\<close>), \<open>z_decompress\<close> is the one-shot
  \<^verbatim>\<open>zlib.decompress\<close> and \<open>z_compress\<close> is \<^verbatim>\<open>zlib.compress\<close>.
\<close>

record 'z env =
  b64decode :: "string \<Rightarrow> bytes option"
  b64encode :: "bytes \<Rightarrow> string"
  z_new :: 'z
  z_feed :: "'z \<Rightarrow> bytes \<Rightarrow> 'z option"
  z_decompress :: "bytes \<Rightarrow> bytes option"
  z_compress :: "bytes \<Rightarrow> bytes"

definition str_bytes :: "string \<Rightarrow> bytes" where
  "str_bytes s = map of_char s"

definition str_cps :: "string \<Rightarrow> pystr" where
  "str_cps s = map of_char s"

definition PACK :: bytes where
  "PACK = str_bytes ''PACK''"

section \<open>Searching and replacing\<close>

text \<open>\<^verbatim>\<open>bytes.find(sub)\<close>: the lowest index of an occurrence, \<open>None\<close> for Python's \<open>-1\<close>.\<close>

fun find_from :: "nat \<Rightarrow> 'a list \<Rightarrow> 'a list \<Rightarrow> nat option" where
  "find_from i sub [] = (if sub = [] then Some i else None)"
| "find_from i sub (x # xs) =
     (if prefix sub (x # xs) then Some i else find_from (i + 1) sub xs)"

definition bytes_find :: "'a list \<Rightarrow> 'a list \<Rightarrow> nat option" where
  "bytes_find data sub = find_from 0 sub data"

text \<open>Python's \<^verbatim>\<open>sub in s\<close>.\<close>

fun str_contains :: "'a list \<Rightarrow> 'a list \<Rightarrow> bool" where
  "str_contains sub [] = (sub = [])"
| "str_contains sub (x # xs) = (prefix sub (x # xs) \<or> str_contains sub xs)"

text \<open>
  \<^verbatim>\<open>s.replace(old, new)\<close> without a count: scanning from the left, every occurrence
  found is replaced and the scan goes on behind it.
\<close>

function str_replace :: "'a list \<Rightarrow> 'a list \<Rightarrow> 'a list \<Rightarrow> 'a list" where
  "str_replace old new [] = (if old = [] then new else [])"
| "str_replace old new (x # xs) =
     (if old = [] then new @ x # str_replace old new xs
      else if prefix old (x # xs)
        then new @ str_replace old new (drop (length old) (x # xs))
        else x # str_replace old new xs)"
  by pat_completeness auto
termination
  by (relation "measure (\<lambda>(old, new, s). length s)") auto

section \<open>UTF-8\<close>

text \<open>
  \<^verbatim>\<open>bytes.decode("utf-8")\<close> in strict mode: shortest forms only, no surrogates, nothing
  above U+10FFFF.  \<open>None\<close> is \<^verbatim>\<open>UnicodeDecodeError\<close>.
\<close>

definition is_cont :: "byte \<Rightarrow> bool" where
  "is_cont b = (0x80 \<le> unat b \<and> unat b \<le> 0xBF)"

definition second_ok3 :: "byte \<Rightarrow> byte \<Rightarrow> bool" where
  "second_ok3 b0 b1 =
     (if unat b0 = 0xE0 then 0xA0 \<le> unat b1 \<and> unat b1 \<le> 0xBF
      else if unat b0 = 0xED then 0x80 \<le> unat b1 \<and> unat b1 \<le> 0x9F
      else is_cont b1)"

definition second_ok4 :: "byte \<Rightarrow> byte \<Rightarrow> bool" where
  "second_ok4 b0 b1 =
     (if unat b0 = 0xF0 then 0x90 \<le> unat b1 \<and> unat b1 \<le> 0xBF
      else if unat b0 = 0xF4 then 0x80 \<le> unat b1 \<and> unat b1 \<le> 0x8F
      else is_cont b1)"

definition cp2 :: "byte \<Rightarrow> byte \<Rightarrow> nat" where
  "cp2 b0 b1 = (unat b0 - 0xC0) * 64 + (unat b1 - 0x80)"

definition cp3 :: "byte \<Rightarrow> byte \<Rightarrow> byte \<Rightarrow> nat" where
  "cp3 b0 b1 b2 = (unat b0 - 0xE0) * 4096 + (unat b1 - 0x80) * 64 + (unat b2 - 0x80)"

definition cp4 :: "byte \<Rightarrow> byte \<Rightarrow> byte \<Rightarrow> byte \<Rightarrow> nat" where
  "cp4 b0 b1 b2 b3 =
     (unat b0 - 0xF0) * 262144 + (unat b1 - 0x80) * 4096 + (unat b2 - 0x80) * 64
       + (unat b3 - 0x80)"

fun utf8_decode :: "bytes \<Rightarrow> pystr option" where
  "utf8_decode [] = Some []"
| "utf8_decode (b0 # bs) =
     (if unat b0 < 0x80 then map_option ((#) (unat b0)) (utf8_decode bs)
      else if 0xC2 \<le> unat b0 \<and> unat b0 \<le> 0xDF then
        (case bs of
           b1 # bs1 \<Rightarrow>
             if is_cont b1 then map_option ((#) (cp2 b0 b1)) (utf8_decode bs1) else None
         | _ \<Rightarrow> None)
      else if 0xE0 \<le> unat b0 \<and> unat b0 \<le> 0xEF then
        (case bs of
           b1 # b2 # bs2 \<Rightarrow>
             if second_ok3 b0 b1 \<and> is_cont b2
             then map_option ((#) (cp3 b0 b1 b2)) (utf8_decode bs2) else None
         | _ \<Rightarrow> None)
      else if 0xF0 \<le> unat b0 \<and> unat b0 \<le> 0xF4 then
        (case bs of
           b1 # b2 # b3 # bs3 \<Rightarrow>
             if second_ok4 b0 b1 \<and> is_cont b2 \<and> is_cont b3
             then map_option ((#) (cp4 b0 b1 b2 b3)) (utf8_decode bs3) else None
         | _ \<Rightarrow> None)
      else None)"

text \<open>
  \<^verbatim>\<open>str.encode("utf-8")\<close>.  A Python string may hold lone surrogates, which have no
  encoding: \<open>None\<close> is \<^verbatim>\<open>UnicodeEncodeError\<close>.  Code points above U+10FFFF do not exist
  in a Python string; the model refuses them too.
\<close>

definition utf8_enc1 :: "nat \<Rightarrow> bytes option" where
  "utf8_enc1 c =
     (if c < 0x80 then Some [of_nat c]
      else if c < 0x800 then Some [of_nat (0xC0 + c div 64), of_nat (0x80 + c mod 64)]
      else if c < 0x10000 then
        (if 0xD800 \<le> c \<and> c \<le> 0xDFFF then None
         else Some [of_nat (0xE0 + c div 4096), of_nat (0x80 + c div 64 mod 64),
                    of_nat (0x80 + c mod 64)])
      else if c < 0x110000 then
        Some [of_nat (0xF0 + c div 262144), of_nat (0x80 + c div 4096 mod 64),
              of_nat (0x80 + c div 64 mod 64), of_nat (0x80 + c mod 64)]
      else None)"

fun utf8_encode :: "pystr \<Rightarrow> bytes option" where
  "utf8_encode [] = Some []"
| "utf8_encode (c # cs) =
     (case utf8_enc1 c of
        None \<Rightarrow> None
      | Some bs \<Rightarrow> map_option ((@) bs) (utf8_encode cs))"

section \<open>SHA-1\<close>

text \<open>\<^verbatim>\<open>hashlib.sha1(data).digest()\<close>, as FIPS 180 defines it.\<close>

definition rotl :: "nat \<Rightarrow> u32 \<Rightarrow> u32" where
  "rotl n x = push_bit n x OR drop_bit (32 - n) x"

definition be32 :: "byte \<Rightarrow> byte \<Rightarrow> byte \<Rightarrow> byte \<Rightarrow> u32" where
  "be32 a b c d =
     push_bit 24 (ucast a) OR push_bit 16 (ucast b) OR push_bit 8 (ucast c) OR ucast d"

definition u32_bytes :: "u32 \<Rightarrow> bytes" where
  "u32_bytes w = [ucast (drop_bit 24 w), ucast (drop_bit 16 w), ucast (drop_bit 8 w), ucast w]"

fun words_of :: "bytes \<Rightarrow> u32 list" where
  "words_of (a # b # c # d # bs) = be32 a b c d # words_of bs"
| "words_of _ = []"

definition sha1_pad :: "bytes \<Rightarrow> bytes" where
  "sha1_pad m =
     (let l = length m in
      m @ [0x80] @ replicate ((119 - l mod 64) mod 64) 0 @
      u32_bytes (of_nat ((8 * l) div 2 ^ 32)) @ u32_bytes (of_nat (8 * l)))"

text \<open>The message schedule, newest word first.\<close>

function sha1_schedule :: "nat \<Rightarrow> u32 list \<Rightarrow> u32 list" where
  "sha1_schedule n ws =
     (if n = 0 then ws
      else sha1_schedule (n - 1) (rotl 1 (ws ! 2 XOR ws ! 7 XOR ws ! 13 XOR ws ! 15) # ws))"
  by pat_completeness auto
termination
  by (relation "measure fst") auto

declare sha1_schedule.simps [simp del]

definition sha1_f :: "nat \<Rightarrow> u32 \<Rightarrow> u32 \<Rightarrow> u32 \<Rightarrow> u32" where
  "sha1_f t b c d =
     (if t < 20 then (b AND c) OR (NOT b AND d)
      else if t < 40 then b XOR c XOR d
      else if t < 60 then (b AND c) OR (b AND d) OR (c AND d)
      else b XOR c XOR d)"

definition sha1_k :: "nat \<Rightarrow> u32" where
  "sha1_k t =
     (if t < 20 then 0x5A827999 else if t < 40 then 0x6ED9EBA1
      else if t < 60 then 0x8F1BBCDC else 0xCA62C1D6)"

type_synonym sha1_state = "u32 \<times> u32 \<times> u32 \<times> u32 \<times> u32"

fun sha1_rounds :: "nat \<Rightarrow> u32 list \<Rightarrow> sha1_state \<Rightarrow> sha1_state" where
  "sha1_rounds t [] s = s"
| "sha1_rounds t (w # ws) (a, b, c, d, e) =
     sha1_rounds (t + 1) ws
       (rotl 5 a + sha1_f t b c d + e + sha1_k t + w, a, rotl 30 b, c, d)"

definition sha1_block :: "sha1_state \<Rightarrow> bytes \<Rightarrow> sha1_state" where
  "sha1_block h blk =
     (case h of (h0, h1, h2, h3, h4) \<Rightarrow>
        (case sha1_rounds 0 (rev (sha1_schedule 64 (rev (words_of blk)))) h of
           (a, b, c, d, e) \<Rightarrow> (h0 + a, h1 + b, h2 + c, h3 + d, h4 + e)))"

function sha1_blocks :: "sha1_state \<Rightarrow> bytes \<Rightarrow> sha1_state" where
  "sha1_blocks h m =
     (if length m < 64 then h else sha1_blocks (sha1_block h (take 64 m)) (drop 64 m))"
  by pat_completeness auto
termination
  by (relation "measure (\<lambda>(h, m). length m)") auto

declare sha1_blocks.simps [simp del]

definition sha1 :: "bytes \<Rightarrow> bytes" where
  "sha1 m =
     (case sha1_blocks (0x67452301, 0xEFCDAB89, 0x98BADCFE, 0x10325476, 0xC3D2E1F0)
             (sha1_pad m) of
        (a, b, c, d, e) \<Rightarrow> concat (map u32_bytes [a, b, c, d, e]))"

definition calculate_checksum :: "bytes \<Rightarrow> bytes" where
  "calculate_checksum data = sha1 data"

section \<open>The object header\<close>

text \<open>
  \<^verbatim>\<open>parse_object_header(stream)\<close>.  \<^verbatim>\<open>ord(stream.read(1))\<close> raises \<open>TypeError\<close> at the
  end of the stream.  The result is the type, the size and the stream behind the header.
\<close>

fun parse_size :: "nat \<Rightarrow> nat \<Rightarrow> nat \<Rightarrow> bytes \<Rightarrow> error + (nat \<times> bytes)" where
  "parse_size first_byte sz shift stream =
     (if first_byte AND 0x80 \<noteq> 0 then
        (case stream of
           [] \<Rightarrow> Inl TypeError
         | b # rest \<Rightarrow>
             parse_size (unat b) (sz OR push_bit shift (unat b AND 0x7F)) (shift + 7) rest)
      else Inr (sz, stream))"

declare parse_size.simps [simp del]

definition parse_object_header :: "bytes \<Rightarrow> error + (nat \<times> nat \<times> bytes)" where
  "parse_object_header stream =
     (case stream of
        [] \<Rightarrow> Inl TypeError
      | b # rest \<Rightarrow>
          (let first_byte = unat b;
               object_type = drop_bit 4 first_byte AND 0b111;
               sz = first_byte AND 0b1111
           in case parse_size first_byte sz 4 rest of
                Inl e \<Rightarrow> Inl e
              | Inr (sz', rest') \<Rightarrow> Inr (object_type, sz', rest')))"

text \<open>
  \<^verbatim>\<open>write_object_header(stream, object_type, sz)\<close>: the bytes it writes.
  \<^verbatim>\<open>struct.pack("B", header)\<close> raises \<^verbatim>\<open>struct.error\<close> when \<open>header\<close> is not a byte.  The
  size is a \<^verbatim>\<open>len(...)\<close>, so a natural number.
\<close>

definition pack_B :: "nat \<Rightarrow> error + byte" where
  "pack_B header = (if header < 256 then Inr (of_nat header) else Inl StructError)"

function write_size :: "nat \<Rightarrow> nat \<Rightarrow> error + bytes" where
  "write_size header sz =
     (if sz \<noteq> 0 then
        (case pack_B (header OR 0x80) of
           Inl e \<Rightarrow> Inl e
         | Inr b \<Rightarrow>
             (case write_size (sz AND 0b1111111) (drop_bit 7 sz) of
                Inl e \<Rightarrow> Inl e
              | Inr bs \<Rightarrow> Inr (b # bs)))
      else
        (case pack_B header of
           Inl e \<Rightarrow> Inl e
         | Inr b \<Rightarrow> Inr [b]))"
  by pat_completeness auto
termination
  by (relation "measure snd") (auto simp: drop_bit_eq_div)

declare write_size.simps [simp del]

definition write_object_header :: "nat \<Rightarrow> nat \<Rightarrow> error + bytes" where
  "write_object_header object_type sz =
     write_size (push_bit 4 object_type OR (sz AND 0b1111)) (drop_bit 4 sz)"

section \<open>Objects\<close>

text \<open>
  \<^verbatim>\<open>decompress_object(stream)\<close>: the bytes it returns and the stream it leaves.  The loop
  reads chunks of 8192 bytes and stops at the end of the stream or behind the first chunk
  on which the decompressor raises.
\<close>

function decompress_loop :: "'z env \<Rightarrow> 'z \<Rightarrow> bytes \<Rightarrow> bytes \<Rightarrow> bytes \<times> bytes" where
  "decompress_loop env decompressor compressed_data stream =
     (let chunk = take 8192 stream; rest = drop 8192 stream in
      if chunk = [] then (compressed_data, rest)
      else
        (case z_feed env decompressor chunk of
           None \<Rightarrow> (compressed_data @ chunk, rest)
         | Some decompressor' \<Rightarrow>
             decompress_loop env decompressor' (compressed_data @ chunk) rest))"
  by pat_completeness auto
termination
  by (relation "measure (\<lambda>(env, z, acc, stream). length stream)") auto

declare decompress_loop.simps [simp del]

definition decompress_object :: "'z env \<Rightarrow> bytes \<Rightarrow> bytes \<times> bytes" where
  "decompress_object env stream = decompress_loop env (z_new env) [] stream"

definition commit_literal :: string where
  "commit_literal = ''Commit: GitHub <noreply@github.com>''"

definition modify_commit_object :: "bytes \<Rightarrow> pystr \<Rightarrow> error + bytes" where
  "modify_commit_object object_data new_commit_field =
     (case utf8_decode object_data of
        None \<Rightarrow> Inl UnicodeDecodeError
      | Some object_str \<Rightarrow>
          (let object_str' =
                 (if str_contains (str_cps ''Commit: '') object_str
                  then str_replace (str_cps commit_literal)
                         (str_cps ''Commit: '' @ new_commit_field) object_str
                  else object_str)
           in case utf8_encode object_str' of
                None \<Rightarrow> Inl UnicodeEncodeError
              | Some bs \<Rightarrow> Inr bs))"

text \<open>
  The body of the loop over the objects: the bytes written to the modified packfile and
  the input stream left for the next object.
\<close>

definition process_object :: "'z env \<Rightarrow> pystr \<Rightarrow> bytes \<Rightarrow> error + (bytes \<times> bytes)" where
  "process_object env new_commit_field stream =
     (case parse_object_header stream of
        Inl e \<Rightarrow> Inl e
      | Inr (object_type, object_size, stream1) \<Rightarrow>
          (case decompress_object env stream1 of
             (compressed_data, stream2) \<Rightarrow>
               (case z_decompress env compressed_data of
                  None \<Rightarrow> Inl ZlibError
                | Some object_data \<Rightarrow>
                    (case (if object_type = 1
                           then modify_commit_object object_data new_commit_field
                           else Inr object_data) of
                       Inl e \<Rightarrow> Inl e
                     | Inr object_data' \<Rightarrow>
                         (case write_object_header object_type (length object_data') of
                            Inl e \<Rightarrow> Inl e
                          | Inr header \<Rightarrow>
                              Inr (header @ z_compress env object_data', stream2))))))"

text \<open>\<^verbatim>\<open>for _ in range(num_objects)\<close>, with the output written so far.\<close>

fun object_loop :: "'z env \<Rightarrow> pystr \<Rightarrow> nat \<Rightarrow> bytes \<Rightarrow> bytes \<Rightarrow> error + (bytes \<times> bytes)" where
  "object_loop env new_commit_field 0 stream out = Inr (out, stream)"
| "object_loop env new_commit_field (Suc n) stream out =
     (case process_object env new_commit_field stream of
        Inl e \<Rightarrow> Inl e
      | Inr (written, stream') \<Rightarrow> object_loop env new_commit_field n stream' (out @ written))"

section \<open>The transform\<close>

text \<open>\<^verbatim>\<open>struct.unpack(">I", packfile_stream.read(4))[0]\<close> on what the read returned.\<close>

definition unpack_u32 :: "bytes \<Rightarrow> error + u32" where
  "unpack_u32 bs = (case bs of [a, b, c, d] \<Rightarrow> Inr (be32 a b c d) | _ \<Rightarrow> Inl StructError)"

text \<open>
  Lines 20 to 73 of \<^verbatim>\<open>parse_and_modify_push_request\<close>, from the decoded request to the
  modified request.  The \<^verbatim>\<open>print\<close> of the version and the count is left out.
\<close>

definition transform :: "'z env \<Rightarrow> bytes \<Rightarrow> pystr \<Rightarrow> error + bytes" where
  "transform env binary_data new_commit_field =
     (case bytes_find binary_data PACK of
        None \<Rightarrow> Inl MarkerNotFound
      | Some pack_start \<Rightarrow>
          (let metadata = take pack_start binary_data;
               packfile_data = drop pack_start binary_data;
               magic = take 4 packfile_data;
               stream1 = drop 4 packfile_data
           in if magic \<noteq> PACK then Inl InvalidMagic
              else
                (case unpack_u32 (take 4 stream1) of
                   Inl e \<Rightarrow> Inl e
                 | Inr version \<Rightarrow>
                     (case unpack_u32 (take 4 (drop 4 stream1)) of
                        Inl e \<Rightarrow> Inl e
                      | Inr num_objects \<Rightarrow>
                          (case object_loop env new_commit_field (unat num_objects)
                                  (drop 8 stream1)
                                  (magic @ u32_bytes version @ u32_bytes num_objects) of
                             Inl e \<Rightarrow> Inl e
                           | Inr (modified_packfile, stream') \<Rightarrow>
                               Inr (metadata @ modified_packfile
                                      @ calculate_checksum modified_packfile))))))"

definition parse_and_modify_push_request :: "'z env \<Rightarrow> string \<Rightarrow> pystr \<Rightarrow> error + string" where
  "parse_and_modify_push_request env base64_data new_commit_field =
     (case b64decode env base64_data of
        None \<Rightarrow> Inl Base64Error
      | Some binary_data \<Rightarrow>
          (case transform env binary_data new_commit_field of
             Inl e \<Rightarrow> Inl e
           | Inr modified_request \<Rightarrow> Inr (b64encode env modified_request)))"

section \<open>Reference notions and test data\<close>

text \<open>Python's \<^verbatim>\<open>sep.join(parts)\<close>.\<close>

fun py_join :: "'a list \<Rightarrow> 'a list list \<Rightarrow> 'a list" where
  "py_join sep [] = []"
| "py_join sep [g] = g"
| "py_join sep (g # gs) = g @ sep @ py_join sep gs"

text \<open>
  The specification's reading of the rewrite: one occurrence of \<open>old\<close>, the one at index
  \<open>i\<close>, is replaced by \<open>new\<close> and nothing else is altered.
\<close>

definition replace_at :: "nat \<Rightarrow> 'a list \<Rightarrow> 'a list \<Rightarrow> 'a list \<Rightarrow> 'a list" where
  "replace_at i old new s = take i s @ new @ drop (i + length old) s"

text \<open>
  A stand-in for the library services, for running the program on concrete inputs where the
  services themselves do not matter: base64 maps characters to bytes and back, and the
  compressed form of data is the data.
\<close>

definition stub_env :: "unit env" where
  "stub_env =
     \<lparr>b64decode = (\<lambda>s. Some (str_bytes s)),
      b64encode = map (\<lambda>b. char_of (unat b)),
      z_new = (),
      z_feed = (\<lambda>z chunk. Some z),
      z_decompress = (\<lambda>data. Some data),
      z_compress = (\<lambda>data. data)\<rparr>"

text \<open>
  A well-formed packfile of version 2 with two blobs, \<^verbatim>\<open>b"a"\<close> and \<^verbatim>\<open>b"b"\<close>: the header,
  then for each blob the header byte \<open>0x31\<close> (type 3, size 1) and the nine bytes of
  \<^verbatim>\<open>zlib.compress\<close> of its content, then the SHA-1 of all that.
\<close>

definition blob_a_compressed :: bytes where
  "blob_a_compressed = [0x78, 0x9c, 0x4b, 0x04, 0x00, 0x00, 0x62, 0x00, 0x62]"

definition blob_b_compressed :: bytes where
  "blob_b_compressed = [0x78, 0x9c, 0x4b, 0x02, 0x00, 0x00, 0x63, 0x00, 0x63]"

definition two_blobs_trailer :: bytes where
  "two_blobs_trailer =
     [0x02, 0x19, 0x8a, 0x67, 0xb0, 0xaa, 0xc2, 0xda, 0x1b, 0x4c,
      0x42, 0xd7, 0xa4, 0x9b, 0x45, 0x5a, 0x9c, 0x5b, 0x25, 0x97]"

text \<open>What follows the header byte of the first blob.\<close>

definition after_first_header :: bytes where
  "after_first_header = blob_a_compressed @ [0x31] @ blob_b_compressed @ two_blobs_trailer"

definition two_blobs :: bytes where
  "two_blobs = PACK @ [0, 0, 0, 2] @ [0, 0, 0, 2] @ [0x31] @ after_first_header"

text \<open>A packfile without objects, and the same behind one byte of metadata.\<close>

definition empty_pack :: bytes where
  "empty_pack = PACK @ [0, 0, 0, 2] @ [0, 0, 0, 0]"

definition empty_pack_request :: bytes where
  "empty_pack_request = [0x78] @ empty_pack"

definition empty_pack_digest :: bytes where
  "empty_pack_digest =
     [0x02, 0x9d, 0x08, 0x82, 0x3b, 0xd8, 0xa8, 0xea, 0xb5, 0x10,
      0xad, 0x6a, 0xc7, 0x5c, 0x82, 0x3c, 0xfd, 0x3e, 0xd3, 0x1e]"

definition empty_pack_request_digest :: bytes where
  "empty_pack_request_digest =
     [0x50, 0x21, 0xf5, 0x6b, 0x3d, 0x14, 0x87, 0x9d, 0xa8, 0x3d,
      0xbc, 0x3a, 0x6b, 0x51, 0x9c, 0xe0, 0xd4, 0x19, 0x03, 0x5b]"

text \<open>
  A request with one byte of metadata and a packfile that holds one blob, whose header
  declares size 15 and whose stored data is the single byte \<open>0x61\<close>; and the container
  the transform makes of it when the compressed form of data is the data.
\<close>

definition one_blob_request :: bytes where
  "one_blob_request = [0x78] @ PACK @ [0, 0, 0, 2] @ [0, 0, 0, 1] @ [0x3F, 0x61]"

definition one_blob_container :: bytes where
  "one_blob_container = PACK @ [0, 0, 0, 2] @ [0, 0, 0, 1] @ [0x31, 0x61]"

text \<open>Commit payloads: the literal twice, and the literal once between other lines.\<close>

definition twice_payload :: bytes where
  "twice_payload = str_bytes commit_literal @ str_bytes commit_literal"

definition once_payload :: bytes where
  "once_payload = str_bytes ''tree 4b825dc6'' @ [0x0a] @ str_bytes commit_literal
     @ [0x0a, 0x0a] @ str_bytes ''msg''"

section \<open>Searching: lemmas\<close>

lemma find_from_None: "find_from i sub xs = None \<longleftrightarrow> \<not> sublist sub xs"
  by (induction xs arbitrary: i) (auto simp: sublist_Cons_right)

lemma no_earlier_prefix:
  assumes "sub \<noteq> []" "\<not> sublist sub ((x # pre) @ butlast sub)"
  shows "\<not> prefix sub (x # pre @ sub @ post)"
proof
  assume p: "prefix sub (x # pre @ sub @ post)"
  have e: "x # pre @ sub @ post = ((x # pre) @ butlast sub) @ (last sub # post)"
    using assms(1) by simp
  have l: "length sub \<le> length ((x # pre) @ butlast sub)" by simp
  from p have "prefix sub (((x # pre) @ butlast sub) @ (last sub # post))"
    by (simp only: e)
  with l have "prefix sub ((x # pre) @ butlast sub)"
    by (metis prefix_length_prefix prefixI)
  then show False using assms(2) by (auto dest: prefix_imp_sublist)
qed

lemma find_from_first:
  "sub \<noteq> [] \<Longrightarrow> \<not> sublist sub (pre @ butlast sub)
     \<Longrightarrow> find_from i sub (pre @ sub @ post) = Some (i + length pre)"
proof (induction pre arbitrary: i)
  case Nil
  then show ?case by (cases sub) auto
next
  case (Cons x pre)
  have np: "\<not> prefix sub (x # pre @ sub @ post)"
    using Cons.prems by (rule no_earlier_prefix)
  from Cons.prems(2) have "\<not> sublist sub (pre @ butlast sub)"
    by (simp add: sublist_Cons_right)
  from Cons.IH[OF Cons.prems(1) this, of "i + 1"] np show ?case by simp
qed

lemma find_from_Some:
  "find_from i sub xs = Some k \<Longrightarrow> i \<le> k \<and> prefix sub (drop (k - i) xs)"
proof (induction xs arbitrary: i)
  case Nil
  then show ?case by (auto split: if_splits)
next
  case (Cons x xs)
  show ?case
  proof (cases "prefix sub (x # xs)")
    case True
    with Cons.prems show ?thesis by simp
  next
    case False
    with Cons.prems have f: "find_from (i + 1) sub xs = Some k" by simp
    from Cons.IH[OF f] have "i + 1 \<le> k" and "prefix sub (drop (k - (i + 1)) xs)" by auto
    moreover from \<open>i + 1 \<le> k\<close> have "k - i = Suc (k - (i + 1))" by simp
    ultimately show ?thesis by simp
  qed
qed

lemma bytes_find_magic:
  assumes "bytes_find data PACK = Some k"
  shows "take 4 (drop k data) = PACK"
proof -
  from assms have "prefix PACK (drop k data)"
    using find_from_Some[of 0 PACK data k] by (simp add: bytes_find_def)
  then obtain zs where "drop k data = PACK @ zs" by (auto simp: prefix_def)
  moreover have "length PACK = 4" by (simp add: PACK_def str_bytes_def)
  ultimately show ?thesis by simp
qed

section \<open>Which errors are raised: lemmas\<close>

lemma parse_size_error: "parse_size fb sz sh s = Inl e \<Longrightarrow> e = TypeError"
  by (induction fb sz sh s rule: parse_size.induct)
     (subst (asm) parse_size.simps, auto split: if_splits list.splits)

lemma parse_object_header_error: "parse_object_header s = Inl e \<Longrightarrow> e = TypeError"
  by (auto simp: parse_object_header_def Let_def split: list.splits sum.splits dest: parse_size_error)

lemma write_size_error: "write_size h sz = Inl e \<Longrightarrow> e = StructError"
  by (induction h sz rule: write_size.induct)
     (subst (asm) write_size.simps, auto simp: pack_B_def split: if_splits sum.splits)

lemma write_object_header_error: "write_object_header t sz = Inl e \<Longrightarrow> e = StructError"
  by (auto simp: write_object_header_def dest: write_size_error)

lemma modify_commit_object_error:
  "modify_commit_object d r = Inl e \<Longrightarrow> e = UnicodeDecodeError \<or> e = UnicodeEncodeError"
  by (auto simp: modify_commit_object_def Let_def split: option.splits)

lemma process_object_error:
  "process_object env r s = Inl e \<Longrightarrow> e \<noteq> ValueError m"
  by (auto simp: process_object_def split: sum.splits prod.splits option.splits if_splits
      dest: parse_object_header_error write_object_header_error modify_commit_object_error)

lemma object_loop_error:
  "object_loop env r n s out = Inl e \<Longrightarrow> e \<noteq> ValueError m"
  by (induction n arbitrary: s out)
     (auto split: sum.splits prod.splits dest: process_object_error)

lemma unpack_u32_error: "unpack_u32 bs = Inl e \<Longrightarrow> e = StructError"
  by (auto simp: unpack_u32_def split: list.splits)

lemma transform_never_invalid_magic: "transform env raw r \<noteq> Inl InvalidMagic"
proof (cases "bytes_find raw PACK")
  case None
  then show ?thesis by (simp add: transform_def MarkerNotFound_def InvalidMagic_def)
next
  case (Some k)
  then show ?thesis
    by (auto simp: transform_def Let_def InvalidMagic_def bytes_find_magic
      split: sum.splits prod.splits
      dest: unpack_u32_error object_loop_error)
qed

section \<open>The object header: lemmas\<close>

lemma and_15: "(x::nat) AND 15 = take_bit 4 x"
  using take_bit_eq_mask[of 4 x] by (simp add: mask_eq_exp_minus_1)
lemma and_127: "(x::nat) AND 127 = take_bit 7 x"
  using take_bit_eq_mask[of 7 x] by (simp add: mask_eq_exp_minus_1)
lemma and_7: "(x::nat) AND 7 = take_bit 3 x"
  using take_bit_eq_mask[of 3 x] by (simp add: mask_eq_exp_minus_1)
lemma and_128_iff: "((x::nat) AND 128 \<noteq> 0) = bit x 7"
  using and_exp_eq_0_iff_not_bit[of x 7] by simp
lemma or_128: "(x::nat) OR 128 = set_bit 7 x"
  by (simp add: set_bit_eq_or)
lemma lt128_bit: "(h::nat) < 128 \<Longrightarrow> \<not> bit h 7"
  by (simp add: bit_iff_odd)
lemma lt128_take: "(h::nat) < 128 \<Longrightarrow> take_bit 7 h = h"
  by (simp add: take_bit_nat_eq_self_iff)
lemma and_128_pos: "(0 < (x::nat) AND 128) = bit x 7"
  using and_128_iff[of x] by simp
lemma set7_lt256: "(h::nat) < 128 \<Longrightarrow> set_bit 7 h < 256"
proof -
  assume h: "h < 128"
  have "set_bit 7 (take_bit 7 h) = take_bit 8 (set_bit 7 (take_bit 7 h))"
    by (rule bit_eqI) (auto simp: bit_simps)
  also have "\<dots> < 2 ^ 8" by (rule take_bit_nat_less_exp)
  finally show ?thesis using h by (simp add: lt128_take)
qed
lemma take_or_drop: "take_bit n (s::nat) OR push_bit n (drop_bit n s) = s"
proof (rule bit_eqI)
  fix k
  show "bit (take_bit n s OR push_bit n (drop_bit n s)) k = bit s k"
    by (cases "k < n") (simp_all add: bit_simps)
qed
lemma take7_set7: "take_bit 7 (set_bit 7 (h::nat)) = take_bit 7 h"
  by (rule bit_eqI) (auto simp: bit_simps)
lemma split7: "push_bit sh (take_bit 7 (s::nat)) OR push_bit (sh + 7) (drop_bit 7 s) = push_bit sh s"
proof -
  have "push_bit (sh + 7) (drop_bit 7 s) = push_bit sh (push_bit 7 (drop_bit 7 s))"
    by (simp add: push_bit_add add.commute)
  then have "push_bit sh (take_bit 7 s) OR push_bit (sh + 7) (drop_bit 7 s)
      = push_bit sh (take_bit 7 s OR push_bit 7 (drop_bit 7 s))"
    by (simp add: push_bit_or)
  then show ?thesis by (simp add: take_or_drop)
qed
lemma unat_byte: "n < 256 \<Longrightarrow> unat (of_nat n :: byte) = n"
  by (simp add: unat_of_nat)

lemma write_size_parse:
  "h < 128 \<Longrightarrow>
   \<exists>b bs. write_size h sz = Inr (b # bs) \<and> take_bit 7 (unat b) = h \<and>
     (\<forall>acc sh rest. parse_size (unat b) acc sh (bs @ rest) = Inr (acc OR push_bit sh sz, rest))"
proof (induction h sz rule: write_size.induct)
  case (1 h sz)
  show ?case
  proof (cases "sz = 0")
    case True
    from "1.prems" have u: "unat (of_nat h :: byte) = h" by (simp add: unat_byte)
    have w: "write_size h sz = Inr [of_nat h]"
      using True "1.prems" by (subst write_size.simps) (simp add: pack_B_def)
    have p: "parse_size h acc sh rest = Inr (acc OR push_bit sh sz, rest)" for acc sh rest
      using True "1.prems" by (subst parse_size.simps) (simp add: and_128_pos lt128_bit)
    from w u p "1.prems" show ?thesis by (simp add: lt128_take)
  next
    case False
    let ?b = "of_nat (set_bit 7 h) :: byte"
    from "1.prems" have u: "unat ?b = set_bit 7 h" by (simp add: unat_byte set7_lt256)
    have "sz AND 127 < 128" using take_bit_nat_less_exp[of 7 sz] by (simp add: and_127)
    from "1.IH"[OF False _ this] "1.prems"
    obtain b2 bs2 where w2: "write_size (sz AND 127) (drop_bit 7 sz) = Inr (b2 # bs2)"
      and t2: "take_bit 7 (unat b2) = sz AND 127"
      and p2: "\<And>acc sh rest. parse_size (unat b2) acc sh (bs2 @ rest)
                 = Inr (acc OR push_bit sh (drop_bit 7 sz), rest)"
      by (auto simp: pack_B_def or_128 set7_lt256)
    have w: "write_size h sz = Inr (?b # b2 # bs2)"
      using False "1.prems" w2 by (subst write_size.simps) (simp add: pack_B_def or_128 set7_lt256)
    have p: "parse_size (unat ?b) acc sh ((b2 # bs2) @ rest) = Inr (acc OR push_bit sh sz, rest)"
      for acc sh rest
    proof -
      have "parse_size (unat ?b) acc sh ((b2 # bs2) @ rest)
          = parse_size (unat b2) (acc OR push_bit sh (unat b2 AND 127)) (sh + 7) (bs2 @ rest)"
        by (subst parse_size.simps) (simp add: u and_128_pos bit_simps)
      also have "\<dots> = Inr ((acc OR push_bit sh (unat b2 AND 127)) OR push_bit (sh + 7) (drop_bit 7 sz), rest)"
        by (rule p2)
      also have "(acc OR push_bit sh (unat b2 AND 127)) OR push_bit (sh + 7) (drop_bit 7 sz)
          = acc OR push_bit sh sz"
        using t2 split7[of sh sz] by (simp add: and_127 or.assoc)
      finally show ?thesis .
    qed
    have "take_bit 7 (unat ?b) = h" using "1.prems" by (simp add: u take7_set7 lt128_take)
    with w p show ?thesis by blast
  qed
qed

lemma header_lt128: "t < 8 \<Longrightarrow> push_bit 4 t OR (s AND 15) < (128::nat)"
proof -
  assume t: "t < 8"
  then have t3: "take_bit 3 t = t" by (simp add: take_bit_nat_eq_self_iff)
  have "push_bit 4 (take_bit 3 t) OR (s AND 15)
      = take_bit 7 (push_bit 4 (take_bit 3 t) OR (s AND 15))"
    by (rule bit_eqI) (auto simp: bit_simps and_15)
  also have "\<dots> < 2 ^ 7" by (rule take_bit_nat_less_exp)
  finally show ?thesis unfolding t3 by simp
qed

lemma header_type: "t < 8 \<Longrightarrow> take_bit 7 fb = push_bit 4 t OR (s AND 15)
   \<Longrightarrow> drop_bit 4 fb AND 7 = (t::nat)"
proof -
  assume t: "t < 8" and fb: "take_bit 7 fb = push_bit 4 t OR (s AND 15)"
  from t have t3: "take_bit 3 t = t" by (simp add: take_bit_nat_eq_self_iff)
  have "drop_bit 4 fb AND 7 = take_bit 3 (drop_bit 4 (take_bit 7 fb))"
    by (rule bit_eqI) (auto simp: bit_simps and_7)
  also have "drop_bit 4 (take_bit 7 fb) = t"
    unfolding fb by (rule bit_eqI) (auto simp: bit_simps and_15)
  finally show ?thesis using t3 by simp
qed

lemma header_size: "take_bit 7 fb = push_bit 4 t OR (s AND 15)
   \<Longrightarrow> (fb AND 15) OR push_bit 4 (drop_bit 4 s) = (s::nat)"
proof -
  assume fb: "take_bit 7 fb = push_bit 4 t OR (s AND 15)"
  have "fb AND 15 = take_bit 4 (take_bit 7 fb)"
    by (rule bit_eqI) (auto simp: bit_simps and_15)
  also have "\<dots> = take_bit 4 s"
    unfolding fb by (rule bit_eqI) (auto simp: bit_simps and_15)
  finally have "fb AND 15 = take_bit 4 s" .
  then show ?thesis
    by (simp add: take_or_drop)
qed

lemma header_roundtrip:
  assumes "t < 8"
  shows "\<exists>bs. write_object_header t s = Inr bs
           \<and> parse_object_header (bs @ rest) = Inr (t, s, rest)"
proof -
  from write_size_parse[OF header_lt128[OF assms, of s], of "drop_bit 4 s"]
  obtain b bs where w: "write_size (push_bit 4 t OR (s AND 15)) (drop_bit 4 s) = Inr (b # bs)"
    and tb: "take_bit 7 (unat b) = push_bit 4 t OR (s AND 15)"
    and p: "\<And>acc sh rest. parse_size (unat b) acc sh (bs @ rest)
               = Inr (acc OR push_bit sh (drop_bit 4 s), rest)"
    by blast
  have "parse_object_header ((b # bs) @ rest) = Inr (t, s, rest)"
    using header_type[OF assms tb] header_size[OF tb]
    by (simp add: parse_object_header_def Let_def p)
  with w show ?thesis by (auto simp: write_object_header_def)
qed

section \<open>UTF-8: lemmas\<close>

lemma enc_ascii: "unat b0 < 0x80 \<Longrightarrow> utf8_enc1 (unat b0) = Some [b0]"
  by (simp add: utf8_enc1_def)

lemma dm: "r < m \<Longrightarrow> ((q::nat) * m + r) div m = q \<and> (q * m + r) mod m = r"
  by simp

lemma dm3:
  assumes "b < 64" "d < 64"
  shows "((a::nat) * 4096 + b * 64 + d) div 4096 = a"
    and "(a * 4096 + b * 64 + d) div 64 mod 64 = b"
    and "(a * 4096 + b * 64 + d) mod 64 = d"
proof -
  let ?c = "a * 4096 + b * 64 + d"
  have e: "?c = (a * 64 + b) * 64 + d" by simp
  have q: "?c div 64 = a * 64 + b" and "?c mod 64 = d"
    using dm[OF assms(2), of "a * 64 + b"] by (simp_all only: e)
  then show "?c mod 64 = d" by simp
  show "?c div 64 mod 64 = b" using dm[OF assms(1), of a] by (simp only: q)
  have "?c div 4096 = ?c div 64 div 64"
    by (simp only: div_mult2_eq[symmetric]) simp
  then show "?c div 4096 = a" using dm[OF assms(1), of a] by (simp only: q)
qed

lemma dm4:
  assumes "b < 64" "d < 64" "e < 64"
  shows "((a::nat) * 262144 + b * 4096 + d * 64 + e) div 262144 = a"
    and "(a * 262144 + b * 4096 + d * 64 + e) div 4096 mod 64 = b"
    and "(a * 262144 + b * 4096 + d * 64 + e) div 64 mod 64 = d"
    and "(a * 262144 + b * 4096 + d * 64 + e) mod 64 = e"
proof -
  let ?c = "a * 262144 + b * 4096 + d * 64 + e"
  have x: "?c = (a * 64 + b) * 4096 + d * 64 + e" by simp
  have q: "?c div 4096 = a * 64 + b" and m1: "?c div 64 mod 64 = d" and m0: "?c mod 64 = e"
    using dm3[OF assms(2,3), of "a * 64 + b"] by (simp_all only: x)
  show "?c div 64 mod 64 = d" by (rule m1)
  show "?c mod 64 = e" by (rule m0)
  show "?c div 4096 mod 64 = b" using dm[OF assms(1), of a] by (simp only: q)
  have "?c div 262144 = ?c div 4096 div 64"
    by (simp only: div_mult2_eq[symmetric]) simp
  then show "?c div 262144 = a" using dm[OF assms(1), of a] by (simp only: q)
qed

lemma enc_cp2:
  assumes "0xC2 \<le> unat b0" "unat b0 \<le> 0xDF" "is_cont b1"
  shows "utf8_enc1 (cp2 b0 b1) = Some [b0, b1]"
proof -
  define a d where "a = unat b0 - 192" and "d = unat b1 - 128"
  define c where "c = a * 64 + d"
  from assms have b: "2 \<le> a" "a \<le> 31" "d < 64" "192 + a = unat b0" "128 + d = unat b1"
    by (auto simp: a_def d_def is_cont_def)
  then have r: "128 \<le> c" "c < 2048"
    unfolding c_def by simp_all
  have "utf8_enc1 c = Some [of_nat (192 + a), of_nat (128 + d)]"
    using r dm[OF b(3), of a] by (simp add: utf8_enc1_def c_def)
  then have "utf8_enc1 c = Some [of_nat (unat b0), of_nat (unat b1)]"
    by (simp only: b)
  then show ?thesis by (simp add: cp2_def c_def a_def d_def)
qed

lemma enc_cp3:
  assumes "0xE0 \<le> unat b0" "unat b0 \<le> 0xEF" "second_ok3 b0 b1" "is_cont b2"
  shows "utf8_enc1 (cp3 b0 b1 b2) = Some [b0, b1, b2]"
proof -
  define a b d where "a = unat b0 - 224" and "b = unat b1 - 128" and "d = unat b2 - 128"
  define c where "c = a * 4096 + b * 64 + d"
  from assms have b: "a \<le> 15" "b < 64" "d < 64" "a = 0 \<Longrightarrow> 32 \<le> b" "a = 13 \<Longrightarrow> b < 32"
    "224 + a = unat b0" "128 + b = unat b1" "128 + d = unat b2"
    by (auto simp: a_def b_def d_def is_cont_def second_ok3_def split: if_splits)
  have r1: "2048 \<le> c" using b(1-4) unfolding c_def by (cases "a = 0") simp_all
  have r2: "c < 65536" using b(1-3) unfolding c_def by simp
  have r3: "\<not> (55296 \<le> c \<and> c \<le> 57343)"
  proof
    assume s: "55296 \<le> c \<and> c \<le> 57343"
    with b(2,3) have "a = 13" unfolding c_def by simp
    with s b(3,5) show False unfolding c_def by simp
  qed
  have "utf8_enc1 c = Some [of_nat (224 + a), of_nat (128 + b), of_nat (128 + d)]"
    using r1 r2 r3 dm3[OF b(2,3), of a] by (simp add: utf8_enc1_def c_def)
  then have "utf8_enc1 c = Some [of_nat (unat b0), of_nat (unat b1), of_nat (unat b2)]"
    by (simp only: b)
  then show ?thesis by (simp add: cp3_def c_def a_def b_def d_def)
qed

lemma enc_cp4:
  assumes "0xF0 \<le> unat b0" "unat b0 \<le> 0xF4" "second_ok4 b0 b1" "is_cont b2" "is_cont b3"
  shows "utf8_enc1 (cp4 b0 b1 b2 b3) = Some [b0, b1, b2, b3]"
proof -
  define a b d e where "a = unat b0 - 240" and "b = unat b1 - 128" and "d = unat b2 - 128"
    and "e = unat b3 - 128"
  define c where "c = a * 262144 + b * 4096 + d * 64 + e"
  from assms have b: "a \<le> 4" "b < 64" "d < 64" "e < 64" "a = 0 \<Longrightarrow> 16 \<le> b" "a = 4 \<Longrightarrow> b < 16"
    "240 + a = unat b0" "128 + b = unat b1" "128 + d = unat b2" "128 + e = unat b3"
    by (auto simp: a_def b_def d_def e_def is_cont_def second_ok4_def split: if_splits)
  have r1: "65536 \<le> c" using b(1-5) unfolding c_def by (cases "a = 0") simp_all
  have r2: "c < 1114112" using b(1-4,6) unfolding c_def by (cases "a = 4") simp_all
  have "utf8_enc1 c = Some [of_nat (240 + a), of_nat (128 + b), of_nat (128 + d), of_nat (128 + e)]"
    using r1 r2 dm4[OF b(2,3,4), of a] by (simp add: utf8_enc1_def c_def)
  then have "utf8_enc1 c = Some [of_nat (unat b0), of_nat (unat b1), of_nat (unat b2), of_nat (unat b3)]"
    by (simp only: b)
  then show ?thesis by (simp add: cp4_def c_def a_def b_def d_def e_def)
qed

lemma utf8_roundtrip: "utf8_decode bs = Some s \<Longrightarrow> utf8_encode s = Some bs"
proof (induction bs arbitrary: s rule: utf8_decode.induct)
  case 1
  then show ?case by simp
next
  case (2 b0 bs)
  consider (a) "unat b0 < 0x80"
    | (b) "\<not> unat b0 < 0x80" "0xC2 \<le> unat b0 \<and> unat b0 \<le> 0xDF"
    | (c) "\<not> unat b0 < 0x80" "\<not> (0xC2 \<le> unat b0 \<and> unat b0 \<le> 0xDF)" "0xE0 \<le> unat b0 \<and> unat b0 \<le> 0xEF"
    | (d) "\<not> unat b0 < 0x80" "\<not> (0xC2 \<le> unat b0 \<and> unat b0 \<le> 0xDF)" "\<not> (0xE0 \<le> unat b0 \<and> unat b0 \<le> 0xEF)" "0xF0 \<le> unat b0 \<and> unat b0 \<le> 0xF4"
    | (e) "\<not> unat b0 < 0x80" "\<not> (0xC2 \<le> unat b0 \<and> unat b0 \<le> 0xDF)" "\<not> (0xE0 \<le> unat b0 \<and> unat b0 \<le> 0xEF)" "\<not> (0xF0 \<le> unat b0 \<and> unat b0 \<le> 0xF4)"
    by blast
  then show ?case
  proof cases
    case a
    with "2.prems" obtain s' where "utf8_decode bs = Some s'" "s = unat b0 # s'" by auto
    with "2.IH"(1)[OF a] a show ?thesis by (simp add: enc_ascii)
  next
    case b
    with "2.prems" obtain b1 bs1 s' where x: "bs = b1 # bs1" "is_cont b1"
       "utf8_decode bs1 = Some s'" "s = cp2 b0 b1 # s'"
      by (auto split: list.splits if_splits)
    from "2.IH"(2)[OF b x(1,2,3)] b x show ?thesis by (simp add: enc_cp2)
  next
    case c
    with "2.prems" obtain b1 b2 bs2 s' where x: "bs = b1 # b2 # bs2" "second_ok3 b0 b1 \<and> is_cont b2"
       "utf8_decode bs2 = Some s'" "s = cp3 b0 b1 b2 # s'"
      by (auto split: list.splits if_splits)
    from "2.IH"(3)[OF c x(1) _ x(2,3)] c x show ?thesis by (simp add: enc_cp3)
  next
    case d
    with "2.prems" obtain b1 b2 b3 bs3 s' where x: "bs = b1 # b2 # b3 # bs3"
       "second_ok4 b0 b1 \<and> is_cont b2 \<and> is_cont b3"
       "utf8_decode bs3 = Some s'" "s = cp4 b0 b1 b2 b3 # s'"
      by (auto split: list.splits if_splits)
    from "2.IH"(4)[OF d x(1) _ _ x(2,3)] d x show ?thesis by (simp add: enc_cp4)
  next
    case e
    with "2.prems" show ?thesis by simp
  qed
qed

section \<open>Replacing: lemmas\<close>

lemma str_replace_prefix:
  "old \<noteq> [] \<Longrightarrow> str_replace old new (old @ ys) = new @ str_replace old new ys"
  by (cases old) simp_all

lemma str_replace_absent:
  "old \<noteq> [] \<Longrightarrow> \<not> sublist old s \<Longrightarrow> str_replace old new s = s"
  by (induction s) (auto simp: sublist_Cons_right)

lemma str_replace_skip:
  "old \<noteq> [] \<Longrightarrow> \<forall>x\<in>set xs. x \<noteq> hd old
     \<Longrightarrow> str_replace old new (xs @ ys) = xs @ str_replace old new ys"
proof (induction xs)
  case Nil
  then show ?case by simp
next
  case (Cons x xs)
  from Cons.prems have "\<not> prefix old (x # xs @ ys)"
    by (cases old) auto
  with Cons show ?case by simp
qed

lemma no_overlap:
  assumes "old \<noteq> []" "hd old \<notin> set (tl old)" "\<not> sublist old g"
  shows "\<not> sublist old (g @ butlast old)"
  using assms(3)
proof (induction g)
  case Nil
  have "length (butlast old) < length old" using assms(1) by simp
  then show ?case by (auto dest: sublist_length_le)
next
  case (Cons x g)
  from Cons.prems have ng: "\<not> sublist old g" and np: "\<not> prefix old (x # g)"
    by (simp_all add: sublist_Cons_right)
  have "\<not> prefix old ((x # g) @ butlast old)"
  proof
    assume "prefix old ((x # g) @ butlast old)"
    then have "prefix old (x # g) \<or> (\<exists>us. old = (x # g) @ us \<and> prefix us (butlast old))"
      by (simp only: prefix_append)
    with np obtain us where us: "old = (x # g) @ us" "prefix us (butlast old)"
      by blast
    from us(1) np have "us \<noteq> []" by auto
    with us(2) have "butlast old \<noteq> []" "hd us = hd (butlast old)"
      by (auto simp: prefix_def)
    then have "hd us = hd old" by (cases old) (auto split: if_splits)
    with \<open>us \<noteq> []\<close> have "hd old \<in> set us" by (metis hd_in_set)
    with us(1) have "hd old \<in> set (tl old)" by simp
    with assms(2) show False by simp
  qed
  with Cons.IH[OF ng] show ?case by (simp add: sublist_Cons_right)
qed

lemma str_replace_first:
  assumes "old \<noteq> []" "\<not> sublist old (g @ butlast old)"
  shows "str_replace old new (g @ old @ rest) = g @ new @ str_replace old new rest"
  using assms(2)
proof (induction g)
  case Nil
  then show ?case using assms(1) by (simp add: str_replace_prefix)
next
  case (Cons x g)
  have np: "\<not> prefix old (x # g @ old @ rest)"
    using assms(1) Cons.prems by (rule no_earlier_prefix)
  from Cons.prems have "\<not> sublist old (g @ butlast old)"
    by (simp add: sublist_Cons_right)
  from Cons.IH[OF this] np assms(1) show ?case by simp
qed

lemma str_replace_join:
  "old \<noteq> [] \<Longrightarrow> hd old \<notin> set (tl old) \<Longrightarrow> gs \<noteq> [] \<Longrightarrow> \<forall>g\<in>set gs. \<not> sublist old g
     \<Longrightarrow> str_replace old new (py_join old gs) = py_join new gs"
proof (induction old gs rule: py_join.induct)
  case (1 sep)
  then show ?case by simp
next
  case (2 sep g)
  then show ?case by (simp add: str_replace_absent)
next
  case (3 sep g v va)
  from "3.prems" have "\<not> sublist sep (g @ butlast sep)"
    by (intro no_overlap) simp_all
  from str_replace_first[OF "3.prems"(1) this, of new "py_join sep (v # va)"] 3
  show ?case by simp
qed

section \<open>Replacing in encoded text: lemmas\<close>

lemma utf8_encode_append:
  "utf8_encode a = Some x \<Longrightarrow> utf8_encode b = Some y \<Longrightarrow> utf8_encode (a @ b) = Some (x @ y)"
  by (induction a arbitrary: x) (auto split: option.splits)

lemma utf8_encode_appendD:
  "utf8_encode (a @ b) = Some z
     \<Longrightarrow> \<exists>x y. utf8_encode a = Some x \<and> utf8_encode b = Some y \<and> z = x @ y"
  by (induction a arbitrary: z) (auto split: option.splits)

lemma utf8_encode_ascii:
  "\<forall>c\<in>set L. c < 128 \<Longrightarrow> utf8_encode L = Some (map of_nat L)"
  by (induction L) (auto simp: utf8_enc1_def)

lemma utf8_enc1_ascii: "c < 128 \<Longrightarrow> utf8_enc1 c = Some [of_nat c]"
  by (simp add: utf8_enc1_def)

lemma utf8_enc1_high:
  assumes "utf8_enc1 c = Some bs" "128 \<le> c"
  shows "bs \<noteq> [] \<and> (\<forall>b\<in>set bs. 128 \<le> unat b)"
proof -
  have m: "128 + c mod 64 < 256" "128 + c div 64 mod 64 < 256" "128 + c div 4096 mod 64 < 256"
    by simp_all
  have d2: "c < 2048 \<Longrightarrow> 192 + c div 64 < 256" by simp
  have d3: "c < 65536 \<Longrightarrow> 224 + c div 4096 < 256" by simp
  have d4: "c < 1114112 \<Longrightarrow> 240 + c div 262144 < 256" by simp
  from assms show ?thesis
    by (auto simp: utf8_enc1_def unat_byte m d2 d3 d4 simp del: of_nat_add of_nat_numeral
        split: if_splits)
qed

lemma byte_of_nat_eq: "l < 256 \<Longrightarrow> c < 256 \<Longrightarrow> ((of_nat l :: byte) = of_nat c) = (l = c)"
  by (metis unat_byte)

lemma ascii_prefix_iff:
  "\<forall>c\<in>set L. c < 128 \<Longrightarrow> utf8_encode s = Some bs
     \<Longrightarrow> prefix (map of_nat L) bs = prefix L s"
proof (induction L arbitrary: s bs)
  case Nil
  then show ?case by simp
next
  case (Cons l L)
  then have l: "l < 128" by simp
  show ?case
  proof (cases s)
    case Nil
    with Cons.prems show ?thesis by simp
  next
    case (Cons c cs)
    with Cons.prems obtain cb bs' where x: "utf8_enc1 c = Some cb" "utf8_encode cs = Some bs'"
        "bs = cb @ bs'"
      by (auto split: option.splits)
    show ?thesis
    proof (cases "c < 128")
      case True
      with x have "bs = of_nat c # bs'" by (simp add: utf8_enc1_ascii)
      with Cons.IH[OF _ x(2)] Cons.prems(1) l True Cons show ?thesis
        by (simp add: byte_of_nat_eq)
    next
      case False
      with utf8_enc1_high[OF x(1)] obtain b0 cb' where "cb = b0 # cb'" "128 \<le> unat b0"
        by (cases cb) auto
      moreover from l have "unat (of_nat l :: byte) = l" by (simp add: unat_byte)
      ultimately have "of_nat l \<noteq> b0" using l by auto
      with \<open>cb = b0 # cb'\<close> x(3) False l Cons show ?thesis by auto
    qed
  qed
qed

lemma str_replace_utf8:
  "L \<noteq> [] \<Longrightarrow> \<forall>c\<in>set L. c < 128 \<Longrightarrow> utf8_encode new = Some newb \<Longrightarrow> utf8_encode s = Some bs
     \<Longrightarrow> utf8_encode (str_replace L new s) = Some (str_replace (map of_nat L) newb bs)"
proof (induction L new s arbitrary: bs rule: str_replace.induct)
  case (1 old new)
  then show ?case by simp
next
  case (2 old new x xs)
  note Lb = utf8_encode_ascii[OF "2.prems"(2)]
  let ?oldb = "map of_nat old :: bytes"
  have ne: "?oldb \<noteq> []" using "2.prems"(1) by simp
  show ?case
  proof (cases "prefix old (x # xs)")
    case True
    then obtain s' where s': "x # xs = old @ s'" by (auto simp: prefix_def)
    then have d: "drop (length old) (x # xs) = s'" by simp
    from "2.prems"(4) obtain bs' where bs': "utf8_encode s' = Some bs'" "bs = ?oldb @ bs'"
      using utf8_encode_appendD[of old s' bs] Lb by (auto simp: s')
    from "2.IH"(2)[OF "2.prems"(1) True "2.prems"(1,2,3)] bs'(1)
    have "utf8_encode (str_replace old new s') = Some (str_replace ?oldb newb bs')"
      by (simp only: d)
    with "2.prems"(3) have "utf8_encode (new @ str_replace old new s')
        = Some (newb @ str_replace ?oldb newb bs')"
      by (simp add: utf8_encode_append)
    moreover have "str_replace old new (x # xs) = new @ str_replace old new s'"
      using True "2.prems"(1) d by simp
    moreover have "str_replace ?oldb newb bs = newb @ str_replace ?oldb newb bs'"
      unfolding bs'(2) using ne by (rule str_replace_prefix)
    ultimately show ?thesis by simp
  next
    case False
    from "2.prems"(4) obtain cb bs' where x: "utf8_enc1 x = Some cb" "utf8_encode xs = Some bs'"
        "bs = cb @ bs'"
      by (auto split: option.splits)
    from "2.IH"(3)[OF "2.prems"(1) False "2.prems"(1,2,3) x(2)]
    have ih: "utf8_encode (str_replace old new xs) = Some (str_replace ?oldb newb bs')" .
    have l: "str_replace old new (x # xs) = x # str_replace old new xs"
      using False "2.prems"(1) by simp
    have r: "str_replace ?oldb newb (cb @ bs') = cb @ str_replace ?oldb newb bs'"
    proof (cases "x < 128")
      case True
      then have cb: "cb = [of_nat x]" using x(1) by (simp add: utf8_enc1_ascii)
      have "\<not> prefix ?oldb bs"
        using ascii_prefix_iff[OF "2.prems"(2,4)] False by simp
      then show ?thesis using ne by (simp add: cb x(3))
    next
      case False
      have h: "unat (hd ?oldb) < 128"
        using "2.prems"(1,2) by (cases old) (auto simp: unat_byte)
      have "\<forall>b\<in>set cb. b \<noteq> hd ?oldb"
        using utf8_enc1_high[OF x(1)] False h by auto
      with ne show ?thesis by (rule str_replace_skip)
    qed
    from ih x(1) l r show ?thesis by (simp add: x(3))
  qed
qed

section \<open>The commit rewriter: lemmas\<close>

lemma str_contains_sublist: "str_contains sub s = sublist sub s"
  by (induction s) (auto simp: sublist_Cons_right)

lemma str_bytes_cps: "str_bytes s = map of_nat (str_cps s)"
  by (simp add: str_bytes_def str_cps_def of_nat_of_char)

lemma literal_ascii: "\<forall>c\<in>set (str_cps commit_literal). c < 128"
  by (simp add: str_cps_def commit_literal_def)

lemma literal_nonempty: "str_cps commit_literal \<noteq> []"
  by (simp add: str_cps_def commit_literal_def)

lemma literal_head: "hd (str_bytes commit_literal) \<notin> set (tl (str_bytes commit_literal))"
  by (simp add: str_bytes_def commit_literal_def)

lemma literal_has_prefix: "sublist (str_cps commit_literal) s \<Longrightarrow> sublist (str_cps ''Commit: '') s"
proof -
  have "str_cps commit_literal = str_cps ''Commit: '' @ str_cps ''GitHub <noreply@github.com>''"
    by (simp add: str_cps_def commit_literal_def)
  moreover assume "sublist (str_cps commit_literal) s"
  ultimately obtain a b where
    "s = a @ (str_cps ''Commit: '' @ str_cps ''GitHub <noreply@github.com>'') @ b"
    unfolding sublist_def by auto
  then have "s = a @ str_cps ''Commit: '' @ (str_cps ''GitHub <noreply@github.com>'' @ b)"
    by simp
  then show "sublist (str_cps ''Commit: '') s"
    unfolding sublist_def by blast
qed

lemma modify_commit_object_eq:
  assumes "utf8_decode d = Some s"
  shows "modify_commit_object d r =
     (case utf8_encode (str_replace (str_cps commit_literal) (str_cps ''Commit: '' @ r) s) of
        None \<Rightarrow> Inl UnicodeEncodeError | Some bs \<Rightarrow> Inr bs)"
proof (cases "sublist (str_cps ''Commit: '') s")
  case True
  with assms show ?thesis
    by (simp add: modify_commit_object_def str_contains_sublist)
next
  case False
  then have "\<not> sublist (str_cps commit_literal) s" using literal_has_prefix by blast
  then have "str_replace (str_cps commit_literal) (str_cps ''Commit: '' @ r) s = s"
    using literal_nonempty by (simp add: str_replace_absent)
  with False assms show ?thesis
    by (simp add: modify_commit_object_def str_contains_sublist)
qed

lemma sublist_utf8:
  assumes "utf8_encode s = Some bs" "\<forall>c\<in>set L. c < 128" "sublist L s"
  shows "sublist (map of_nat L) bs"
proof -
  from assms(3) obtain a b where "s = a @ L @ b" by (auto simp: sublist_def)
  with assms(1) have "utf8_encode (a @ (L @ b)) = Some bs" by simp
  from utf8_encode_appendD[OF this] obtain x yz where
    x: "utf8_encode (L @ b) = Some yz" "bs = x @ yz" by blast
  from utf8_encode_appendD[OF x(1)] obtain y z where
    y: "utf8_encode L = Some y" "yz = y @ z" by blast
  from y(1) utf8_encode_ascii[OF assms(2)] have "y = map of_nat L" by simp
  with x(2) y(2) have "bs = x @ map of_nat L @ z" by simp
  then show ?thesis unfolding sublist_def by blast
qed

lemma modify_bytes:
  assumes "utf8_decode payload \<noteq> None" "utf8_encode r = Some rb"
  shows "modify_commit_object payload r =
     Inr (str_replace (str_bytes commit_literal) (str_bytes ''Commit: '' @ rb) payload)"
proof -
  from assms(1) obtain s where s: "utf8_decode payload = Some s" by auto
  then have e: "utf8_encode s = Some payload" by (rule utf8_roundtrip)
  have "\<forall>c\<in>set (str_cps ''Commit: ''). c < 128" by (simp add: str_cps_def)
  from utf8_encode_ascii[OF this]
  have "utf8_encode (str_cps ''Commit: '') = Some (str_bytes ''Commit: '')"
    by (simp only: str_bytes_cps)
  from this assms(2)
  have n: "utf8_encode (str_cps ''Commit: '' @ r) = Some (str_bytes ''Commit: '' @ rb)"
    by (rule utf8_encode_append)
  from str_replace_utf8[OF literal_nonempty literal_ascii n e]
  show ?thesis by (simp add: modify_commit_object_eq[OF s] str_bytes_cps)
qed

section \<open>SHA-1: evaluation\<close>

lemma replicate_numeral: "replicate (numeral k) x = x # replicate (pred_numeral k) x"
  by (simp add: numeral_eq_Suc)

lemmas sha1_eval = sha1_def sha1_pad_def replicate_numeral u32_bytes_def be32_def sha1_block_def
  rotl_def sha1_f_def sha1_k_def sha1_schedule.simps sha1_blocks.simps

lemma sha1_empty_pack: "sha1 empty_pack = empty_pack_digest"
  by (simp add: empty_pack_def PACK_def str_bytes_def empty_pack_digest_def sha1_eval)

lemma two_blobs_trailer_sha1:
  "sha1 (PACK @ [0, 0, 0, 2] @ [0, 0, 0, 2] @ [0x31] @ blob_a_compressed
           @ [0x31] @ blob_b_compressed) = two_blobs_trailer"
  by (simp add: PACK_def str_bytes_def blob_a_compressed_def blob_b_compressed_def
      two_blobs_trailer_def sha1_eval)

lemma sha1_empty_pack_request: "sha1 empty_pack_request = empty_pack_request_digest"
  by (simp add: empty_pack_request_def empty_pack_def PACK_def str_bytes_def
      empty_pack_request_digest_def sha1_eval)

section \<open>The object loop: lemmas\<close>

lemma decompress_loop_short:
  "length stream \<le> 8192 \<Longrightarrow> decompress_loop env z acc stream = (acc @ stream, [])"
proof (cases "stream = []")
  case True
  then show ?thesis by (subst decompress_loop.simps) simp
next
  case False
  assume l: "length stream \<le> 8192"
  have e: "decompress_loop env z' (acc @ stream) [] = (acc @ stream, [])" for z'
    by (subst decompress_loop.simps) simp
  from False l show ?thesis
    by (subst decompress_loop.simps) (simp add: e split: option.splits)
qed

lemma decompress_object_short:
  "length stream \<le> 8192 \<Longrightarrow> decompress_object env stream = (stream, [])"
  by (simp add: decompress_object_def decompress_loop_short)

lemma parse_object_header_type:
  assumes "parse_object_header s = Inr (t, sz, rest)"
  shows "t < 8"
proof (cases s)
  case Nil
  with assms show ?thesis by (simp add: parse_object_header_def)
next
  case (Cons b s')
  with assms have "t = drop_bit 4 (unat b) AND 7"
    by (auto simp: parse_object_header_def Let_def split: sum.splits)
  then have "t = take_bit 3 (drop_bit 4 (unat b))" by (simp add: and_7)
  then show ?thesis using take_bit_nat_less_exp[of 3 "drop_bit 4 (unat b)"] by simp
qed

lemma object_loop_numeral:
  "object_loop env r (numeral k) stream out =
     (case process_object env r stream of
        Inl e \<Rightarrow> Inl e
      | Inr (written, stream') \<Rightarrow> object_loop env r (pred_numeral k) stream' (out @ written))"
  by (simp add: numeral_eq_Suc)

lemma parse_size_stop: "fb < 128 \<Longrightarrow> parse_size fb sz sh s = Inr (sz, s)"
  by (subst parse_size.simps) (simp add: and_128_pos lt128_bit)

lemma length_sha1: "length (sha1 m) = 20"
  by (simp add: sha1_def u32_bytes_def split: prod.splits)

section \<open>The transform: lemmas\<close>

lemma transform_marker_not_found:
  "(transform env binary_data r = Inl MarkerNotFound) = (\<not> sublist PACK binary_data)"
proof (cases "bytes_find binary_data PACK")
  case None
  then show ?thesis
    using find_from_None[of 0 PACK binary_data] by (simp add: transform_def bytes_find_def)
next
  case (Some k)
  then have "sublist PACK binary_data"
    using find_from_None[of 0 PACK binary_data] by (simp add: bytes_find_def)
  moreover from Some have "transform env binary_data r \<noteq> Inl MarkerNotFound"
    by (auto simp: transform_def Let_def MarkerNotFound_def InvalidMagic_def
        split: sum.splits prod.splits dest: unpack_u32_error object_loop_error)
  ultimately show ?thesis by simp
qed

lemma object_loop_prefix:
  "object_loop env r n stream out = Inr (out', stream') \<Longrightarrow> prefix out out'"
proof (induction n arbitrary: stream out)
  case 0
  then show ?case by simp
next
  case (Suc n)
  then obtain written s1 where "object_loop env r n s1 (out @ written) = Inr (out', stream')"
    by (auto split: sum.splits prod.splits)
  from Suc.IH[OF this] show ?case by (auto simp: prefix_def)
qed

lemma transform_output:
  assumes "transform env binary_data r = Inr out"
  shows "\<exists>pack_start container.
     bytes_find binary_data PACK = Some pack_start
     \<and> out = take pack_start binary_data @ container @ calculate_checksum container
     \<and> prefix PACK container"
proof -
  from assms obtain k where k: "bytes_find binary_data PACK = Some k"
    by (auto simp: transform_def split: option.splits)
  have m: "take 4 (drop k binary_data) = PACK" using k by (rule bytes_find_magic)
  from assms k m obtain n stream0 out0 modified stream' where
    l: "object_loop env r n stream0 (PACK @ out0) = Inr (modified, stream')"
       "out = take k binary_data @ modified @ calculate_checksum modified"
    by (auto simp: transform_def Let_def split: sum.splits prod.splits)
  from object_loop_prefix[OF l(1)] have "prefix PACK modified"
    by (auto simp: prefix_def)
  with k l(2) show ?thesis by blast
qed

lemma stub_transform_empty_pack:
  "transform stub_env empty_pack_request r
     = Inr (empty_pack_request @ calculate_checksum empty_pack)"
proof -
  have f: "bytes_find empty_pack_request PACK = Some 1"
    by (simp add: bytes_find_def empty_pack_request_def empty_pack_def PACK_def str_bytes_def)
  have u: "unat (be32 0 0 0 0) = 0" by (simp add: be32_def)
  have b: "u32_bytes (be32 0 0 0 2) = [0, 0, 0, 2]" "u32_bytes (be32 0 0 0 0) = [0, 0, 0, 0]"
    by (simp_all add: be32_def u32_bytes_def)
  have d: "drop 1 empty_pack_request = PACK @ [0, 0, 0, 2] @ [0, 0, 0, 0]"
     "take 1 empty_pack_request = [0x78]"
    by (simp_all add: empty_pack_request_def empty_pack_def)
  have m: "take 4 (PACK @ xs) = PACK" "drop 4 (PACK @ xs) = xs" for xs
    by (simp_all add: PACK_def str_bytes_def)
  show ?thesis
    by (simp only: transform_def f option.case Let_def d m)
       (simp add: unpack_u32_def u b empty_pack_request_def empty_pack_def)
qed

lemma stub_transform_one_blob:
  "transform stub_env one_blob_request r = Inr ([0x78] @ one_blob_container @ sha1 one_blob_container)"
proof -
  have f: "bytes_find one_blob_request PACK = Some 1"
    by (simp add: bytes_find_def one_blob_request_def PACK_def str_bytes_def)
  have u: "unat (be32 0 0 0 1) = 1" by (simp add: be32_def)
  have b: "u32_bytes (be32 0 0 0 2) = [0, 0, 0, 2]" "u32_bytes (be32 0 0 0 1) = [0, 0, 0, 1]"
    by (simp_all add: be32_def u32_bytes_def)
  have d: "drop 1 one_blob_request = PACK @ [0, 0, 0, 2] @ [0, 0, 0, 1] @ [0x3F, 0x61]"
     "take 1 one_blob_request = [0x78]"
    by (simp_all add: one_blob_request_def)
  have m: "take 4 (PACK @ xs) = PACK" "drop 4 (PACK @ xs) = xs" for xs
    by (simp_all add: PACK_def str_bytes_def)
  have p: "parse_object_header [0x3F, 0x61] = Inr (3, 15, [0x61])"
    by (simp add: parse_object_header_def parse_size_stop)
  have w: "write_object_header 3 (Suc 0) = Inr [0x31]"
    by (simp add: write_object_header_def write_size.simps pack_B_def)
  have e: "process_object stub_env r [0x3F, 0x61] = Inr ([0x31, 0x61], [])"
    by (simp add: process_object_def p decompress_object_short w stub_env_def)
  have "transform stub_env one_blob_request r =
     (case object_loop stub_env r 1 [0x3F, 0x61]
             (PACK @ u32_bytes (be32 0 0 0 2) @ u32_bytes (be32 0 0 0 1)) of
        Inl e \<Rightarrow> Inl e
      | Inr (modified_packfile, stream') \<Rightarrow>
          Inr (take 1 one_blob_request @ modified_packfile @ calculate_checksum modified_packfile))"
    by (simp only: transform_def f option.case Let_def d m) (simp add: unpack_u32_def u)
  also have "\<dots> = Inr ([0x78] @ one_blob_container @ sha1 one_blob_container)"
    by (simp add: e b calculate_checksum_def one_blob_container_def one_blob_request_def)
  finally show ?thesis .
qed

section \<open>Claims\<close>

text \<open>
  C1.  The claim: on a well-formed packfile \<open>decompress_object\<close> consumes exactly the bytes
  of the current object's compressed data, so that the next header can be parsed right
  behind them.  The code does not: on the packfile \<open>two_blobs\<close>, whatever zlib does,
  \<open>decompress_object\<close> called behind the first header returns everything up to the end of
  the input (the first blob, the header and the data of the second blob, and the trailer)
  and leaves an empty stream, on which \<open>parse_object_header\<close> raises.
\<close>

theorem decompress_object_consumes_rest:
  "decompress_object env after_first_header = (after_first_header, [])
   \<and> after_first_header = blob_a_compressed @ [0x31] @ blob_b_compressed @ two_blobs_trailer
   \<and> fst (decompress_object env after_first_header) \<noteq> blob_a_compressed
   \<and> parse_object_header (snd (decompress_object env after_first_header)) = Inl TypeError"
proof -
  have "length after_first_header \<le> 8192"
    by (simp add: after_first_header_def blob_a_compressed_def blob_b_compressed_def
        two_blobs_trailer_def)
  then have "decompress_object env after_first_header = (after_first_header, [])"
    by (rule decompress_object_short)
  then show ?thesis
    by (simp add: parse_object_header_def) (simp add: after_first_header_def)
qed

text \<open>
  C2.  The claim: a packfile that declares \<open>N\<close> objects has exactly \<open>N\<close> object records
  processed.  The code does not: on \<open>two_blobs\<close>, which declares and holds two objects, the
  transform raises, whatever zlib does: \<open>zlib.error\<close> if the one-shot decompression rejects
  what the first iteration collected, and otherwise \<open>TypeError\<close> from the header parse of the
  second iteration, which finds the stream empty.
\<close>

theorem two_blobs_fails:
  "transform env two_blobs r =
     (case z_decompress env after_first_header of
        None \<Rightarrow> Inl ZlibError
      | Some object_data \<Rightarrow> Inl TypeError)"
proof -
  have l: "length after_first_header \<le> 8192"
    by (simp add: after_first_header_def blob_a_compressed_def blob_b_compressed_def
        two_blobs_trailer_def)
  have f: "bytes_find two_blobs PACK = Some 0"
    by (simp add: bytes_find_def two_blobs_def PACK_def str_bytes_def)
  have h: "parse_object_header (0x31 # after_first_header) = Inr (3, 1, after_first_header)"
    by (simp add: parse_object_header_def parse_size_stop)
  have w: "write_object_header 3 n \<noteq> Inl e" for n e
    using header_roundtrip[of 3 n] by auto
  have p: "process_object env r (0x31 # after_first_header) =
     (case z_decompress env after_first_header of
        None \<Rightarrow> Inl ZlibError
      | Some object_data \<Rightarrow>
          (case write_object_header 3 (length object_data) of
             Inl e \<Rightarrow> Inl e
           | Inr header \<Rightarrow> Inr (header @ z_compress env object_data, [])))"
    by (simp add: process_object_def h decompress_object_short[OF l] split: option.splits)
  have q: "process_object env r [] = Inl TypeError"
    by (simp add: process_object_def parse_object_header_def)
  have u: "unat (be32 0 0 0 2) = 2" by (simp add: be32_def)
  have d: "drop 0 two_blobs = PACK @ [0, 0, 0, 2] @ [0, 0, 0, 2] @ 0x31 # after_first_header"
    by (simp add: two_blobs_def)
  have m: "take 4 (PACK @ xs) = PACK" "drop 4 (PACK @ xs) = xs" for xs
    by (simp_all add: PACK_def str_bytes_def)
  have "transform env two_blobs r =
     (case object_loop env r 2 (0x31 # after_first_header)
             (PACK @ u32_bytes (be32 0 0 0 2) @ u32_bytes (be32 0 0 0 2)) of
        Inl e \<Rightarrow> Inl e
      | Inr (modified_packfile, stream') \<Rightarrow>
          Inr (take 0 two_blobs @ modified_packfile @ calculate_checksum modified_packfile))"
    by (simp only: transform_def f option.case Let_def d m) (simp add: unpack_u32_def u)
  also have "\<dots> = (case z_decompress env after_first_header of
        None \<Rightarrow> Inl ZlibError
      | Some object_data \<Rightarrow> Inl TypeError)"
    using w by (simp add: object_loop_numeral p q split: option.splits sum.splits)
  finally show ?thesis .
qed

text \<open>
  C3, as amended.  When the transform succeeds, its output is the bytes before the marker,
  then the rewritten container, which starts with the marker, then the 20-byte SHA-1 of
  that container.  The digest covers the container only, not the metadata in front of it.
\<close>

theorem trailer_digest_of_container:
  assumes "transform env binary_data r = Inr out"
  shows "\<exists>pack_start container.
     bytes_find binary_data PACK = Some pack_start
     \<and> prefix PACK container
     \<and> out = take pack_start binary_data @ container @ sha1 container
     \<and> length (sha1 container) = 20"
  using transform_output[OF assms] by (auto simp: calculate_checksum_def length_sha1)

text \<open>
  The amended C3 on a request with one byte of metadata and a packfile with one blob: the
  output is the metadata byte, the rewritten container, and the SHA-1 of that container.
\<close>

theorem trailer_digest_of_container_witness:
  "transform stub_env one_blob_request []
     = Inr ([0x78] @ one_blob_container @ sha1 one_blob_container)
   \<and> (\<exists>pack_start container.
     bytes_find one_blob_request PACK = Some pack_start
     \<and> prefix PACK container
     \<and> [0x78] @ one_blob_container @ sha1 one_blob_container
         = take pack_start one_blob_request @ container @ sha1 container
     \<and> length (sha1 container) = 20)"
  using trailer_digest_of_container[OF stub_transform_one_blob[of "[]"]]
    stub_transform_one_blob[of "[]"]
  by blast

text \<open>
  C3 as stated fails: on \<open>empty_pack_request\<close> the output is the request followed by the
  digest of the packfile alone, which is not the digest of all the bytes in front of it.
\<close>

theorem trailer_digest_counterexample:
  "transform stub_env empty_pack_request [] = Inr (empty_pack_request @ empty_pack_digest)
   \<and> length empty_pack_digest = 20
   \<and> calculate_checksum empty_pack_request \<noteq> empty_pack_digest"
proof -
  have "calculate_checksum empty_pack_request \<noteq> empty_pack_digest"
    by (simp add: calculate_checksum_def sha1_empty_pack_request
        empty_pack_request_digest_def empty_pack_digest_def)
  then show ?thesis
    by (simp add: stub_transform_empty_pack calculate_checksum_def sha1_empty_pack)
       (simp add: empty_pack_digest_def)
qed

text \<open>
  C4.  For every object type below 8 and every size, \<open>write_object_header\<close> succeeds, and
  \<open>parse_object_header\<close> on its output followed by any bytes returns that type and that
  size and leaves exactly the bytes that followed.
\<close>

theorem object_header_roundtrip:
  "t < 8 \<Longrightarrow>
     \<exists>bs. write_object_header t s = Inr bs
       \<and> (\<forall>rest. parse_object_header (bs @ rest) = Inr (t, s, rest))"
proof -
  assume t: "t < 8"
  from header_roundtrip[OF t, of s "[]"] obtain bs where
    w: "write_object_header t s = Inr bs" by blast
  have "parse_object_header (bs @ rest) = Inr (t, s, rest)" for rest
    using header_roundtrip[OF t, of s rest] w by auto
  with w show ?thesis by blast
qed

text \<open>C4 for a commit of size 300, a two-byte header.\<close>

theorem object_header_roundtrip_witness:
  "(1::nat) < 8
   \<and> (\<exists>bs. write_object_header 1 300 = Inr bs
       \<and> (\<forall>rest. parse_object_header (bs @ rest) = Inr (1, 300, rest)))"
  using object_header_roundtrip[of 1 300] by simp

text \<open>
  C5, as amended.  Let the payload be valid UTF-8 and let the replacement text have a UTF-8
  encoding.  Cut the payload at every occurrence of the literal: it is the parts, none of
  which contains the literal, joined by the literal.  Then \<open>modify_commit_object\<close> returns
  the same parts joined by \<^verbatim>\<open>"Commit: "\<close> followed by the replacement text: every
  occurrence is replaced, once each, and no other byte is altered.  With two parts the
  literal occurs once and is replaced once.
\<close>

theorem rewrite_replaces_every_occurrence:
  assumes "utf8_decode payload \<noteq> None" "utf8_encode r = Some r_bytes"
    and "payload = py_join (str_bytes commit_literal) parts" "parts \<noteq> []"
    and "\<forall>part\<in>set parts. \<not> sublist (str_bytes commit_literal) part"
  shows "modify_commit_object payload r = Inr (py_join (str_bytes ''Commit: '' @ r_bytes) parts)"
proof -
  have ne: "str_bytes commit_literal \<noteq> []" by (simp add: str_bytes_def commit_literal_def)
  have "modify_commit_object payload r =
     Inr (str_replace (str_bytes commit_literal) (str_bytes ''Commit: '' @ r_bytes) payload)"
    using assms(1,2) by (rule modify_bytes)
  also have "str_replace (str_bytes commit_literal) (str_bytes ''Commit: '' @ r_bytes) payload
      = py_join (str_bytes ''Commit: '' @ r_bytes) parts"
    unfolding assms(3) using ne literal_head assms(4,5) by (rule str_replace_join)
  finally show ?thesis .
qed

text \<open>The amended C5 on a payload with the literal once, between two other lines.\<close>

theorem rewrite_replaces_every_occurrence_witness:
  "utf8_decode once_payload \<noteq> None
   \<and> utf8_encode (str_cps ''Bob <bob@example.com>'') = Some (str_bytes ''Bob <bob@example.com>'')
   \<and> once_payload = py_join (str_bytes commit_literal)
        [str_bytes ''tree 4b825dc6'' @ [0x0a], [0x0a, 0x0a] @ str_bytes ''msg'']
   \<and> [str_bytes ''tree 4b825dc6'' @ [0x0a], [0x0a, 0x0a] @ str_bytes ''msg''] \<noteq> []
   \<and> \<not> sublist (str_bytes commit_literal) (str_bytes ''tree 4b825dc6'' @ [0x0a])
   \<and> \<not> sublist (str_bytes commit_literal) ([0x0a, 0x0a] @ str_bytes ''msg'')
   \<and> modify_commit_object once_payload (str_cps ''Bob <bob@example.com>'')
       = Inr (str_bytes ''tree 4b825dc6'' @ [0x0a] @ str_bytes ''Commit: Bob <bob@example.com>''
              @ [0x0a, 0x0a] @ str_bytes ''msg'')"
proof -
  have v: "utf8_decode once_payload \<noteq> None"
    by (simp add: once_payload_def str_bytes_def commit_literal_def)
  have e: "utf8_encode (str_cps ''Bob <bob@example.com>'')
      = Some (str_bytes ''Bob <bob@example.com>'')"
    by (simp add: str_cps_def str_bytes_def utf8_enc1_def)
  have j: "once_payload = py_join (str_bytes commit_literal)
        [str_bytes ''tree 4b825dc6'' @ [0x0a], [0x0a, 0x0a] @ str_bytes ''msg'']"
    by (simp add: once_payload_def)
  have n: "\<forall>part\<in>set [str_bytes ''tree 4b825dc6'' @ [0x0a], [0x0a, 0x0a] @ str_bytes ''msg''].
         \<not> sublist (str_bytes commit_literal) part"
    by (simp add: str_bytes_def commit_literal_def str_contains_sublist[symmetric])
  from rewrite_replaces_every_occurrence[OF v e j _ n] v e j n show ?thesis
    by (simp add: str_bytes_def)
qed

text \<open>
  C5 as stated fails: on a payload that holds the literal twice both occurrences are
  replaced, so the result is neither the payload with only the first nor the payload with
  only the second occurrence replaced.
\<close>

theorem rewrite_exactly_once_counterexample:
  "modify_commit_object twice_payload (str_cps ''X'') = Inr (str_bytes ''Commit: XCommit: X'')
   \<and> str_bytes ''Commit: XCommit: X''
       \<noteq> replace_at 0 (str_bytes commit_literal) (str_bytes ''Commit: X'') twice_payload
   \<and> str_bytes ''Commit: XCommit: X''
       \<noteq> replace_at 35 (str_bytes commit_literal) (str_bytes ''Commit: X'') twice_payload"
proof -
  have v: "utf8_decode twice_payload \<noteq> None"
    by (simp add: twice_payload_def str_bytes_def commit_literal_def)
  have e: "utf8_encode (str_cps ''X'') = Some (str_bytes ''X'')"
    by (simp add: str_cps_def str_bytes_def utf8_enc1_def)
  have ne: "str_bytes commit_literal \<noteq> []" by (simp add: str_bytes_def commit_literal_def)
  let ?L = "str_bytes commit_literal" and ?N = "str_bytes ''Commit: '' @ str_bytes ''X''"
  have "str_replace ?L ?N (?L @ []) = ?N @ str_replace ?L ?N []"
    using ne by (rule str_replace_prefix)
  with ne have b: "str_replace ?L ?N ?L = ?N" by simp
  have "modify_commit_object twice_payload (str_cps ''X'') = Inr (str_replace ?L ?N twice_payload)"
    using v e by (rule modify_bytes)
  also have "str_replace ?L ?N twice_payload = ?N @ str_replace ?L ?N ?L"
    unfolding twice_payload_def using ne by (rule str_replace_prefix)
  finally have 1: "modify_commit_object twice_payload (str_cps ''X'')
      = Inr (str_bytes ''Commit: XCommit: X'')"
    by (simp add: b) (simp add: str_bytes_def)
  have l: "length (str_bytes ''Commit: XCommit: X'') = 18" by (simp add: str_bytes_def)
  have "length (replace_at 0 (str_bytes commit_literal) (str_bytes ''Commit: X'') twice_payload) = 44"
    by (simp add: replace_at_def twice_payload_def str_bytes_def commit_literal_def)
  with l have "length (str_bytes ''Commit: XCommit: X'')
      \<noteq> length (replace_at 0 (str_bytes commit_literal) (str_bytes ''Commit: X'') twice_payload)"
    by simp
  then have 2: "str_bytes ''Commit: XCommit: X''
       \<noteq> replace_at 0 (str_bytes commit_literal) (str_bytes ''Commit: X'') twice_payload"
    by auto
  have "length (replace_at 35 (str_bytes commit_literal) (str_bytes ''Commit: X'') twice_payload) = 44"
    by (simp add: replace_at_def twice_payload_def str_bytes_def commit_literal_def)
  with l have "length (str_bytes ''Commit: XCommit: X'')
      \<noteq> length (replace_at 35 (str_bytes commit_literal) (str_bytes ''Commit: X'') twice_payload)"
    by simp
  then have 3: "str_bytes ''Commit: XCommit: X''
       \<noteq> replace_at 35 (str_bytes commit_literal) (str_bytes ''Commit: X'') twice_payload"
    by auto
  from 1 2 3 show ?thesis by blast
qed

text \<open>
  C6.  On a payload that is valid UTF-8 and does not contain the literal,
  \<open>modify_commit_object\<close> raises nothing and returns the payload, whatever the
  replacement text.
\<close>

theorem rewrite_identity_without_literal:
  assumes "utf8_decode payload \<noteq> None" "\<not> sublist (str_bytes commit_literal) payload"
  shows "modify_commit_object payload r = Inr payload"
proof -
  from assms(1) obtain s where s: "utf8_decode payload = Some s" by auto
  then have e: "utf8_encode s = Some payload" by (rule utf8_roundtrip)
  have "\<not> sublist (str_cps commit_literal) s"
    using sublist_utf8[OF e literal_ascii] assms(2) by (auto simp: str_bytes_cps)
  then have "str_replace (str_cps commit_literal) (str_cps ''Commit: '' @ r) s = s"
    using literal_nonempty by (simp add: str_replace_absent)
  with e show ?thesis by (simp add: modify_commit_object_eq[OF s])
qed

text \<open>C6 on a payload with another committer.\<close>

theorem rewrite_identity_without_literal_witness:
  "utf8_decode (str_bytes ''Commit: Alice <a@x.com>'') \<noteq> None
   \<and> \<not> sublist (str_bytes commit_literal) (str_bytes ''Commit: Alice <a@x.com>'')
   \<and> modify_commit_object (str_bytes ''Commit: Alice <a@x.com>'') (str_cps ''Bob'')
       = Inr (str_bytes ''Commit: Alice <a@x.com>'')"
proof -
  have v: "utf8_decode (str_bytes ''Commit: Alice <a@x.com>'') \<noteq> None"
    by (simp add: str_bytes_def)
  have n: "\<not> sublist (str_bytes commit_literal) (str_bytes ''Commit: Alice <a@x.com>'')"
    by (simp add: str_bytes_def commit_literal_def str_contains_sublist[symmetric])
  from rewrite_identity_without_literal[OF v n, of "str_cps ''Bob''"] v n show ?thesis by simp
qed

text \<open>
  C7.  For an object whose type is not 1, the loop body writes the header for that type and
  the length of the decompressed payload, followed by the recompression of that same
  payload.  This holds for every replacement text and every payload, also one that the
  rewriter would refuse: the rewriter is not applied.
\<close>

theorem non_commit_passthrough:
  assumes "parse_object_header stream = Inr (t, declared, stream1)"
    and "t \<noteq> 1"
    and "decompress_object env stream1 = (compressed, stream2)"
    and "z_decompress env compressed = Some object_data"
  shows "\<exists>header. write_object_header t (length object_data) = Inr header
     \<and> process_object env r stream = Inr (header @ z_compress env object_data, stream2)"
proof -
  from assms(1) have "t < 8" by (rule parse_object_header_type)
  from header_roundtrip[OF this, of "length object_data" "[]"] obtain header where
    "write_object_header t (length object_data) = Inr header" by blast
  with assms show ?thesis by (simp add: process_object_def)
qed

text \<open>C7 on a blob whose payload is not valid UTF-8.\<close>

theorem non_commit_passthrough_witness:
  "parse_object_header [0x31, 0xFF] = Inr (3, 1, [0xFF])
   \<and> (3::nat) \<noteq> 1
   \<and> decompress_object stub_env [0xFF] = ([0xFF], [])
   \<and> z_decompress stub_env [0xFF] = Some [0xFF]
   \<and> utf8_decode [0xFF] = None
   \<and> (\<exists>header. write_object_header 3 (length [0xFF :: byte]) = Inr header
        \<and> process_object stub_env [] [0x31, 0xFF] = Inr (header @ z_compress stub_env [0xFF], []))"
proof -
  have p: "parse_object_header [0x31, 0xFF] = Inr (3, 1, [0xFF])"
    by (simp add: parse_object_header_def parse_size_stop)
  have d: "decompress_object stub_env [0xFF] = ([0xFF], [])"
    by (simp add: decompress_object_short)
  have z: "z_decompress stub_env [0xFF] = Some [0xFF]" by (simp add: stub_env_def)
  have u: "utf8_decode [0xFF] = None" by simp
  from non_commit_passthrough[OF p _ d z, of "[]"] p d z u show ?thesis by simp
qed

text \<open>
  C8.  The transform fails with \<open>MarkerNotFound\<close> exactly when the decoded input does not
  contain the marker (for \<open>parse_and_modify_push_request\<close>: when the input decodes and the
  decoded bytes do not contain it).  When it succeeds, the bytes in front of the first
  occurrence of the marker are a prefix of the output.
\<close>

theorem marker_not_found_iff:
  "(transform env binary_data r = Inl MarkerNotFound \<longleftrightarrow> \<not> sublist PACK binary_data)
   \<and> (parse_and_modify_push_request env base64_data r = Inl MarkerNotFound
        \<longleftrightarrow> (\<exists>raw. b64decode env base64_data = Some raw \<and> \<not> sublist PACK raw))
   \<and> (\<forall>pre post out.
          binary_data = pre @ PACK @ post \<and> \<not> sublist PACK (pre @ butlast PACK)
          \<and> transform env binary_data r = Inr out
          \<longrightarrow> prefix pre out)"
proof (intro conjI allI impI)
  show "transform env binary_data r = Inl MarkerNotFound \<longleftrightarrow> \<not> sublist PACK binary_data"
    by (rule transform_marker_not_found)
  show "parse_and_modify_push_request env base64_data r = Inl MarkerNotFound
        \<longleftrightarrow> (\<exists>raw. b64decode env base64_data = Some raw \<and> \<not> sublist PACK raw)"
  proof (cases "b64decode env base64_data")
    case None
    then show ?thesis
      by (simp add: parse_and_modify_push_request_def MarkerNotFound_def)
  next
    case (Some raw)
    then have "parse_and_modify_push_request env base64_data r = Inl MarkerNotFound
        \<longleftrightarrow> transform env raw r = Inl MarkerNotFound"
      by (cases "transform env raw r") (simp_all add: parse_and_modify_push_request_def)
    with Some show ?thesis by (simp add: transform_marker_not_found)
  qed
next
  fix pre post out
  assume a: "binary_data = pre @ PACK @ post \<and> \<not> sublist PACK (pre @ butlast PACK)
          \<and> transform env binary_data r = Inr out"
  have "PACK \<noteq> []" by (simp add: PACK_def str_bytes_def)
  with a have f: "bytes_find binary_data PACK = Some (length pre)"
    using find_from_first[of PACK pre 0 post] by (simp add: bytes_find_def)
  from a have "transform env binary_data r = Inr out" by blast
  from transform_output[OF this] f obtain container where
    "out = take (length pre) binary_data @ container @ calculate_checksum container"
    by auto
  moreover from a have "take (length pre) binary_data = pre" by simp
  ultimately show "prefix pre out" by simp
qed

text \<open>C8 on an input without the marker and on one with a byte in front of it.\<close>

theorem marker_not_found_iff_witness:
  "(transform stub_env (str_bytes ''0000'') [] = Inl MarkerNotFound
      \<longleftrightarrow> \<not> sublist PACK (str_bytes ''0000''))
   \<and> \<not> sublist PACK (str_bytes ''0000'')
   \<and> empty_pack_request = [0x78] @ PACK @ [0, 0, 0, 2, 0, 0, 0, 0]
   \<and> \<not> sublist PACK ([0x78] @ butlast PACK)
   \<and> transform stub_env empty_pack_request []
        = Inr (empty_pack_request @ calculate_checksum empty_pack)
   \<and> prefix [0x78] (empty_pack_request @ calculate_checksum empty_pack)"
proof -
  have n: "\<not> sublist PACK (str_bytes ''0000'')"
    by (simp add: PACK_def str_bytes_def str_contains_sublist[symmetric])
  have e: "empty_pack_request = [0x78] @ PACK @ [0, 0, 0, 2, 0, 0, 0, 0]"
    by (simp add: empty_pack_request_def empty_pack_def)
  have b: "\<not> sublist PACK ([0x78] @ butlast PACK)"
    by (simp add: PACK_def str_bytes_def str_contains_sublist[symmetric])
  note t = stub_transform_empty_pack[of "[]"]
  from marker_not_found_iff[of stub_env "str_bytes ''0000''" "[]" "[]"]
  have 1: "transform stub_env (str_bytes ''0000'') [] = Inl MarkerNotFound
      \<longleftrightarrow> \<not> sublist PACK (str_bytes ''0000'')"
    by blast
  from marker_not_found_iff[of stub_env empty_pack_request "[]" "[]"] e b t
  have 2: "prefix [0x78] (empty_pack_request @ calculate_checksum empty_pack)"
    by blast
  from 1 n e b t 2 show ?thesis by blast
qed

text \<open>
  C9.  When the loop body succeeds, what it has written parses as a header with the type
  of the input object and the length of the payload as emitted (rewritten for a commit,
  as decompressed otherwise), followed by the recompressed payload.  The size declared in
  the input has no influence: with any other declared size in the input header the body
  writes the same bytes and leaves the same stream.
\<close>

theorem emitted_size_is_payload_length:
  assumes "process_object env r stream = Inr (written, stream')"
  shows "\<exists>t declared stream1 compressed object_data object_data'.
     parse_object_header stream = Inr (t, declared, stream1)
     \<and> decompress_object env stream1 = (compressed, stream')
     \<and> z_decompress env compressed = Some object_data
     \<and> (if t = 1 then modify_commit_object object_data r = Inr object_data'
         else object_data' = object_data)
     \<and> (\<forall>rest. parse_object_header (written @ rest)
           = Inr (t, length object_data', z_compress env object_data' @ rest))
     \<and> (\<forall>declared' header. write_object_header t declared' = Inr header
           \<longrightarrow> process_object env r (header @ stream1) = Inr (written, stream'))"
proof -
  from assms obtain t declared stream1 where
    p: "parse_object_header stream = Inr (t, declared, stream1)"
    by (auto simp: process_object_def split: sum.splits)
  obtain compressed stream2 where d: "decompress_object env stream1 = (compressed, stream2)"
    by (cases "decompress_object env stream1")
  from assms p d obtain object_data where z: "z_decompress env compressed = Some object_data"
    by (auto simp: process_object_def split: option.splits)
  from assms p d z obtain object_data' header where
    m: "(if t = 1 then modify_commit_object object_data r else Inr object_data) = Inr object_data'"
    and w: "write_object_header t (length object_data') = Inr header"
    and o: "written = header @ z_compress env object_data'" "stream' = stream2"
    by (auto simp: process_object_def split: sum.splits)
  from p have t: "t < 8" by (rule parse_object_header_type)
  have h: "parse_object_header (written @ rest)
           = Inr (t, length object_data', z_compress env object_data' @ rest)" for rest
    using header_roundtrip[OF t, of "length object_data'" "z_compress env object_data' @ rest"] w o
    by auto
  have i: "process_object env r (header' @ stream1) = Inr (written, stream')"
    if "write_object_header t declared' = Inr header'" for declared' header'
  proof -
    from header_roundtrip[OF t, of declared' stream1] that
    have "parse_object_header (header' @ stream1) = Inr (t, declared', stream1)" by auto
    with d z m w o show ?thesis by (simp add: process_object_def)
  qed
  from m have "if t = 1 then modify_commit_object object_data r = Inr object_data'
         else object_data' = object_data"
    by (auto split: if_splits)
  with p d z o(2) h i show ?thesis by blast
qed

text \<open>C9 on a blob that declares size 15 and holds one byte: the output declares 1.\<close>

theorem emitted_size_is_payload_length_witness:
  "process_object stub_env [] [0x3F, 0x61] = Inr ([0x31, 0x61], [])
   \<and> (\<exists>t declared stream1 compressed object_data object_data'.
     parse_object_header [0x3F, 0x61] = Inr (t, declared, stream1)
     \<and> decompress_object stub_env stream1 = (compressed, [])
     \<and> z_decompress stub_env compressed = Some object_data
     \<and> (if t = 1 then modify_commit_object object_data [] = Inr object_data'
         else object_data' = object_data)
     \<and> (\<forall>rest. parse_object_header ([0x31, 0x61] @ rest)
           = Inr (t, length object_data', z_compress stub_env object_data' @ rest))
     \<and> (\<forall>declared' header. write_object_header t declared' = Inr header
           \<longrightarrow> process_object stub_env [] (header @ stream1) = Inr ([0x31, 0x61], [])))"
proof -
  have p: "parse_object_header [0x3F, 0x61] = Inr (3, 15, [0x61])"
    by (simp add: parse_object_header_def parse_size_stop)
  have w: "write_object_header 3 (Suc 0) = Inr [0x31]"
    by (simp add: write_object_header_def write_size.simps pack_B_def)
  have e: "process_object stub_env [] [0x3F, 0x61] = Inr ([0x31, 0x61], [])"
    by (simp add: process_object_def p decompress_object_short w stub_env_def)
  from emitted_size_is_payload_length[OF e] e show ?thesis by blast
qed

text \<open>
  C10.  Neither the transform nor \<open>parse_and_modify_push_request\<close> ever fails with
  \<open>InvalidMagic\<close>: the four bytes read back at the offset the search returned are the
  marker.
\<close>

theorem invalid_magic_unreachable:
  "transform env binary_data r \<noteq> Inl InvalidMagic
   \<and> parse_and_modify_push_request env base64_data r \<noteq> Inl InvalidMagic"
proof -
  have "parse_and_modify_push_request env base64_data r \<noteq> Inl InvalidMagic"
    using transform_never_invalid_magic[of env _ r]
    by (auto simp: parse_and_modify_push_request_def InvalidMagic_def
        split: option.splits sum.splits)
  with transform_never_invalid_magic show ?thesis by blast
qed

text \<open>C10 on two inputs that hold the marker.\<close>

theorem invalid_magic_unreachable_witness:
  "transform stub_env empty_pack_request [] \<noteq> Inl InvalidMagic
   \<and> parse_and_modify_push_request stub_env ''xPACK'' [] \<noteq> Inl InvalidMagic"
  using invalid_magic_unreachable[of stub_env empty_pack_request "[]" "''xPACK''"] by simp

end
